theory Spec2Isabelle
  imports Main "HOL-Library.Multiset"
begin

section \<open>Tree nodes (types/custom.ts)\<close>

text \<open>
  The interface \<^verbatim>\<open>TreeNode\<close> of \<^verbatim>\<open>types/custom.ts\<close>. The optional fields
  \<^verbatim>\<open>children\<close> and \<^verbatim>\<open>variableId\<close> are options: \<open>None\<close> is the absent (undefined)
  property, \<open>Some []\<close> the empty array, which JavaScript takes as true in a
  condition. \<^verbatim>\<open>parentPath\<close> is the extra property that \<^verbatim>\<open>buildTree\<close> of
  \<^verbatim>\<open>code.js\<close> gives its nodes (\<open>None\<close> where it is absent or null). Three field
  names carry the prefix \<open>node_\<close> because \<open>id\<close>, \<open>name\<close> and \<open>type\<close> are taken.

  A string is a list of characters; a character stands for one UTF-16 code unit
  below 256.
\<close>

datatype NodeType = Group | Variable

datatype TreeNode = TreeNode
  (node_id: string)
  (node_name: string)
  (node_type: NodeType)
  (children: "TreeNode list option")
  (variableId: "string option")
  (collapsed: bool)
  (level: nat)
  (checked: bool)
  (indeterminate: bool)
  (parentPath: "string option")

text \<open>Object spread with one or more properties replaced.\<close>

definition set_collapsed :: "bool \<Rightarrow> TreeNode \<Rightarrow> TreeNode" where
  "set_collapsed b n =
     TreeNode (node_id n) (node_name n) (node_type n) (children n) (variableId n)
       b (level n) (checked n) (indeterminate n) (parentPath n)"

definition set_children :: "TreeNode list option \<Rightarrow> TreeNode \<Rightarrow> TreeNode" where
  "set_children cs n =
     TreeNode (node_id n) (node_name n) (node_type n) cs (variableId n)
       (collapsed n) (level n) (checked n) (indeterminate n) (parentPath n)"

definition set_checked :: "bool \<Rightarrow> bool \<Rightarrow> TreeNode \<Rightarrow> TreeNode" where
  "set_checked c i n =
     TreeNode (node_id n) (node_name n) (node_type n) (children n) (variableId n)
       (collapsed n) (level n) c i (parentPath n)"

lemma children_size:
  "children n = Some cs \<Longrightarrow> c \<in> set cs \<Longrightarrow> size c < size n"
  by (cases n) (auto simp: less_Suc_eq_le dest: size_list_estimation'[where f = size, OF _ order_refl])

lemma children_size_list:
  "children n = Some cs \<Longrightarrow> size_list size cs < size n"
  by (cases n) auto

lemma member_size_list:
  "n \<in> set tree \<Longrightarrow> size n < Suc (size_list size tree)"
  by (induction tree) auto

section \<open>Tree engine (utils/treeBuilder.ts)\<close>

subsection \<open>toggleNodeCollapsed\<close>

function toggleNodeCollapsed :: "TreeNode list \<Rightarrow> string \<Rightarrow> TreeNode list" where
  "toggleNodeCollapsed tree nodeId =
     map (\<lambda>node.
       if node_id node = nodeId then set_collapsed (\<not> collapsed node) node
       else (case children node of
               Some cs \<Rightarrow> set_children (Some (toggleNodeCollapsed cs nodeId)) node
             | None \<Rightarrow> node)) tree"
  by pat_completeness auto
termination
proof (relation "measure (\<lambda>(tree, nodeId). size_list size tree)")
  show "wf (measure (\<lambda>(tree, nodeId). size_list size tree))" by simp
next
  fix tree :: "TreeNode list" and nodeId :: string and node :: TreeNode and cs
  assume "node \<in> set tree" and "children node = Some cs"
  then have "size_list size cs < size node" and "size node < Suc (size_list size tree)"
    by (simp_all add: children_size_list member_size_list)
  then show "((cs, nodeId), (tree, nodeId)) \<in> measure (\<lambda>(tree, nodeId). size_list size tree)"
    by simp
qed


subsection \<open>Strings: trim, toLowerCase, includes\<close>

text \<open>
  The white space that \<^verbatim>\<open>String.prototype.trim\<close> removes, among the code units
  below 256: tab, line feed, vertical tab, form feed, carriage return, space and
  the no-break space.
\<close>

definition isWhiteSpace :: "char \<Rightarrow> bool" where
  "isWhiteSpace c = (of_char c \<in> {9, 10, 11, 12, 13, 32, 160 :: nat})"

definition trim :: "string \<Rightarrow> string" where
  "trim s = rev (dropWhile isWhiteSpace (rev (dropWhile isWhiteSpace s)))"

text \<open>
  \<^verbatim>\<open>toLowerCase\<close> on code units below 256: the letters A to Z, and the
  capital letters of Latin-1 (192 to 222 without the multiplication sign 215),
  move up by 32.
\<close>

definition toLowerChar :: "char \<Rightarrow> char" where
  "toLowerChar c =
     (let n = (of_char c :: nat) in
      if (65 \<le> n \<and> n \<le> 90) \<or> (192 \<le> n \<and> n \<le> 222 \<and> n \<noteq> 215)
      then char_of (n + 32) else c)"

definition toLowerCase :: "string \<Rightarrow> string" where
  "toLowerCase s = map toLowerChar s"

fun startsWith :: "string \<Rightarrow> string \<Rightarrow> bool" where
  "startsWith s [] = True"
| "startsWith [] (q # qs) = False"
| "startsWith (c # cs) (q # qs) = (c = q \<and> startsWith cs qs)"

fun includes_str :: "string \<Rightarrow> string \<Rightarrow> bool" where
  "includes_str [] q = (q = [])"
| "includes_str (c # cs) q = (startsWith (c # cs) q \<or> includes_str cs q)"

subsection \<open>filterTree\<close>

text \<open>\<^verbatim>\<open>.filter(child => child !== null)\<close> on the array of match results.\<close>

fun notNull :: "'a option list \<Rightarrow> 'a list" where
  "notNull [] = []"
| "notNull (None # xs) = notNull xs"
| "notNull (Some x # xs) = x # notNull xs"

function matchNode :: "string \<Rightarrow> TreeNode \<Rightarrow> TreeNode option" where
  "matchNode lowerQuery node =
     (let nameMatches = includes_str (toLowerCase (node_id node)) lowerQuery in
      if node_type node = Variable then (if nameMatches then Some node else None)
      else
        (let matchedChildren =
               (case children node of
                  Some cs \<Rightarrow> notNull (map (matchNode lowerQuery) cs)
                | None \<Rightarrow> [])
         in if 0 < length matchedChildren \<or> nameMatches
            then Some (set_collapsed False (set_children (Some matchedChildren) node))
            else None))"
  by pat_completeness auto
termination
  by (relation "measure (\<lambda>(lowerQuery, node). size node)") (auto simp: children_size)

definition filterTree :: "TreeNode list \<Rightarrow> string \<Rightarrow> TreeNode list" where
  "filterTree tree query =
     (if trim query = [] then tree
      else (let lowerQuery = toLowerCase query
            in notNull (map (matchNode lowerQuery) tree)))"

subsection \<open>updateNodeChecked\<close>

function updateAllChildren :: "TreeNode list \<Rightarrow> bool \<Rightarrow> TreeNode list" where
  "updateAllChildren cs chk =
     map (\<lambda>child.
       set_children
         (case children child of
            Some gs \<Rightarrow> Some (updateAllChildren gs chk)
          | None \<Rightarrow> None)
         (set_checked chk False child)) cs"
  by pat_completeness auto
termination
proof (relation "measure (\<lambda>(cs, chk). size_list size cs)")
  show "wf (measure (\<lambda>(cs, chk). size_list size cs))" by simp
next
  fix cs :: "TreeNode list" and chk :: bool and child :: TreeNode and gs
  assume "child \<in> set cs" and "children child = Some gs"
  then have "size_list size gs < size child" and "size child < Suc (size_list size cs)"
    by (simp_all add: children_size_list member_size_list)
  then show "((gs, chk), (cs, chk)) \<in> measure (\<lambda>(cs, chk). size_list size cs)"
    by simp
qed

function updateNodeChecked :: "TreeNode list \<Rightarrow> string \<Rightarrow> bool \<Rightarrow> TreeNode list" where
  "updateNodeChecked tree nodeId chk =
     map (\<lambda>node.
       if node_id node = nodeId then
         (let updated = set_checked chk False node in
          case children node of
            Some cs \<Rightarrow> set_children (Some (updateAllChildren cs chk)) updated
          | None \<Rightarrow> updated)
       else
         (case children node of
            Some cs \<Rightarrow>
              (let updatedChildren = updateNodeChecked cs nodeId chk;
                   checkedCount = length (filter checked updatedChildren);
                   indeterminateCount = length (filter indeterminate updatedChildren)
               in set_checked
                    (checkedCount = length updatedChildren)
                    ((0 < checkedCount \<and> checkedCount < length updatedChildren)
                       \<or> 0 < indeterminateCount)
                    (set_children (Some updatedChildren) node))
          | None \<Rightarrow> node)) tree"
  by pat_completeness auto
termination
proof (relation "measure (\<lambda>(tree, nodeId, chk). size_list size tree)")
  show "wf (measure (\<lambda>(tree, nodeId, chk). size_list size tree))" by simp
next
  fix tree :: "TreeNode list" and nodeId :: string and chk :: bool and node :: TreeNode and cs
  assume "node \<in> set tree" and "children node = Some cs"
  then have "size_list size cs < size node" and "size node < Suc (size_list size tree)"
    by (simp_all add: children_size_list member_size_list)
  then show "((cs, nodeId, chk), (tree, nodeId, chk))
      \<in> measure (\<lambda>(tree, nodeId, chk). size_list size tree)"
    by simp
qed


subsection \<open>Nodes of a forest and the tri-state invariant\<close>

text \<open>
  The vocabulary of the properties: \<open>subtree n\<close> lists \<open>n\<close> and every node below it,
  depth first; \<open>descendants n\<close> are the nodes strictly below \<open>n\<close>, and
  \<open>leafDescendants n\<close> those of them that are variables.
\<close>

function subtree :: "TreeNode \<Rightarrow> TreeNode list" where
  "subtree n = n # (case children n of Some cs \<Rightarrow> concat (map subtree cs) | None \<Rightarrow> [])"
  by pat_completeness auto
termination
  by (relation "measure size") (auto simp: children_size)

definition forest_nodes :: "TreeNode list \<Rightarrow> TreeNode list" where
  "forest_nodes tree = concat (map subtree tree)"

definition descendants :: "TreeNode \<Rightarrow> TreeNode list" where
  "descendants n = (case children n of Some cs \<Rightarrow> forest_nodes cs | None \<Rightarrow> [])"

definition leafDescendants :: "TreeNode \<Rightarrow> TreeNode list" where
  "leafDescendants n = filter (\<lambda>d. node_type d = Variable) (descendants n)"

text \<open>
  The tri-state invariant of the data model, for one node and for a forest: a
  group is checked iff all its descendant variable leaves are, and indeterminate
  iff some of them are checked and some are not.
\<close>

definition triStateNode :: "TreeNode \<Rightarrow> bool" where
  "triStateNode n =
     (node_type n = Group \<longrightarrow>
        (checked n \<longleftrightarrow> (\<forall>l \<in> set (leafDescendants n). checked l)) \<and>
        (indeterminate n \<longleftrightarrow>
           (\<exists>l \<in> set (leafDescendants n). checked l) \<and>
           (\<exists>l \<in> set (leafDescendants n). \<not> checked l)))"

definition triState :: "TreeNode list \<Rightarrow> bool" where
  "triState tree = (\<forall>n \<in> set (forest_nodes tree). triStateNode n)"

text \<open>
  The shape of a node in the data model: a group has at least one child, a
  variable has no \<^verbatim>\<open>children\<close> property and is never indeterminate.
\<close>

definition wellFormedNode :: "TreeNode \<Rightarrow> bool" where
  "wellFormedNode n =
     (case node_type n of
        Group \<Rightarrow> (case children n of Some cs \<Rightarrow> cs \<noteq> [] | None \<Rightarrow> False)
      | Variable \<Rightarrow> children n = None \<and> \<not> indeterminate n)"

definition wellFormed :: "TreeNode list \<Rightarrow> bool" where
  "wellFormed tree = (\<forall>n \<in> set (forest_nodes tree). wellFormedNode n)"

section \<open>Properties of the tree engine\<close>

lemma set_get [simp]:
  "children (set_children cs n) = cs"
  "children (set_collapsed b n) = children n"
  "children (set_checked c i n) = children n"
  "node_id (set_children cs n) = node_id n"
  "node_id (set_collapsed b n) = node_id n"
  "node_id (set_checked c i n) = node_id n"
  "node_type (set_children cs n) = node_type n"
  "node_type (set_collapsed b n) = node_type n"
  "node_type (set_checked c i n) = node_type n"
  "collapsed (set_collapsed b n) = b"
  "collapsed (set_children cs n) = collapsed n"
  "checked (set_checked c i n) = c"
  "indeterminate (set_checked c i n) = i"
  "checked (set_children cs n) = checked n"
  "indeterminate (set_children cs n) = indeterminate n"
  by (simp_all add: set_collapsed_def set_children_def set_checked_def)

lemma set_set [simp]:
  "set_collapsed b (set_collapsed b' n) = set_collapsed b n"
  "set_collapsed (collapsed n) n = n"
  "set_children cs (set_children cs' n) = set_children cs n"
  "set_children cs (set_collapsed b n) = set_collapsed b (set_children cs n)"
  by (simp_all add: set_collapsed_def set_children_def)

lemma set_children_same: "children n = cs \<Longrightarrow> set_children cs n = n"
  by (auto simp: set_children_def)

declare toggleNodeCollapsed.simps [simp del]
declare matchNode.simps [simp del]
declare updateAllChildren.simps [simp del]
declare updateNodeChecked.simps [simp del]
declare subtree.simps [simp del]


subsection \<open>Evaluation on concrete forests\<close>

text \<open>
  The functions over a forest unfold one node at a time; these equations let the
  simplifier run them on a concrete forest.
\<close>

lemma toggleNodeCollapsed_Nil: "toggleNodeCollapsed [] nodeId = []"
  by (simp add: toggleNodeCollapsed.simps[of "[]"])

lemma toggleNodeCollapsed_Cons:
  "toggleNodeCollapsed (node # tree) nodeId =
     (if node_id node = nodeId then set_collapsed (\<not> collapsed node) node
      else (case children node of
              Some cs \<Rightarrow> set_children (Some (toggleNodeCollapsed cs nodeId)) node
            | None \<Rightarrow> node)) # toggleNodeCollapsed tree nodeId"
  by (simp add: toggleNodeCollapsed.simps[of "node # tree"] toggleNodeCollapsed.simps[of tree])

lemma forest_nodes_Nil: "forest_nodes [] = []"
  by (simp add: forest_nodes_def)

lemma forest_nodes_Cons: "forest_nodes (n # tree) = n # descendants n @ forest_nodes tree"
  by (cases "children n") (simp_all add: forest_nodes_def descendants_def subtree.simps[of n])

lemmas forest_eval =
  forest_nodes_Nil forest_nodes_Cons descendants_def
  set_collapsed_def set_children_def set_checked_def

definition sampleForest :: "TreeNode list" where
  "sampleForest =
     [TreeNode ''color'' ''color'' Group (Some
        [TreeNode ''color/bg'' ''bg'' Group (Some
           [TreeNode ''color/bg/default'' ''default'' Variable None (Some ''v1'')
              True 2 False False None,
            TreeNode ''color/bg/hover'' ''hover'' Variable None (Some ''v2'')
              True 2 False False None])
           None True 1 False False None,
         TreeNode ''color/fg'' ''fg'' Variable None (Some ''v3'') True 1 False False None])
        None True 0 False False None]"

subsection \<open>toggleNodeCollapsed is an involution\<close>

lemma subtree_self: "n \<in> set (subtree n)"
  by (simp add: subtree.simps[of n])

lemma forest_nodes_root: "n \<in> set tree \<Longrightarrow> n \<in> set (forest_nodes tree)"
  by (auto simp: forest_nodes_def intro: subtree_self)

lemma forest_nodes_child:
  assumes "n \<in> set tree" "children n = Some cs"
  shows "set (forest_nodes cs) \<subseteq> set (forest_nodes tree)"
proof
  fix x assume "x \<in> set (forest_nodes cs)"
  with assms(2) have "x \<in> set (subtree n)"
    by (simp add: subtree.simps[of n] forest_nodes_def)
  with assms(1) show "x \<in> set (forest_nodes tree)"
    unfolding forest_nodes_def by auto
qed

lemma toggle_twice: "toggleNodeCollapsed (toggleNodeCollapsed tree nodeId) nodeId = tree"
proof (induction tree nodeId rule: toggleNodeCollapsed.induct)
  case (1 tree nodeId)
  have "toggleNodeCollapsed (toggleNodeCollapsed tree nodeId) nodeId = map (\<lambda>n. n) tree"
    unfolding toggleNodeCollapsed.simps[of tree] toggleNodeCollapsed.simps[of "map _ tree"] map_map
  proof (rule map_cong[OF refl])
    fix node assume n: "node \<in> set tree"
    show "((\<lambda>node. if node_id node = nodeId then set_collapsed (\<not> collapsed node) node
               else case children node of None \<Rightarrow> node
                    | Some cs \<Rightarrow> set_children (Some (toggleNodeCollapsed cs nodeId)) node) \<circ>
         (\<lambda>node. if node_id node = nodeId then set_collapsed (\<not> collapsed node) node
               else case children node of None \<Rightarrow> node
                    | Some cs \<Rightarrow> set_children (Some (toggleNodeCollapsed cs nodeId)) node)) node
          = node"
      using 1[OF n] by (cases "children node") (auto simp: set_children_same)
  qed
  then show ?case by simp
qed

lemma toggle_absent:
  "nodeId \<notin> node_id ` set (forest_nodes tree) \<Longrightarrow> toggleNodeCollapsed tree nodeId = tree"
proof (induction tree nodeId rule: toggleNodeCollapsed.induct)
  case (1 tree nodeId)
  have "toggleNodeCollapsed tree nodeId = map (\<lambda>n. n) tree"
    unfolding toggleNodeCollapsed.simps[of tree]
  proof (rule map_cong[OF refl])
    fix node assume n: "node \<in> set tree"
    then have ne: "node_id node \<noteq> nodeId" using 1(2) forest_nodes_root by blast
    show "(if node_id node = nodeId then set_collapsed (\<not> collapsed node) node
           else case children node of None \<Rightarrow> node
                | Some cs \<Rightarrow> set_children (Some (toggleNodeCollapsed cs nodeId)) node) = node"
    proof (cases "children node")
      case None
      with ne show ?thesis by simp
    next
      case (Some cs)
      have "nodeId \<notin> node_id ` set (forest_nodes cs)"
        using 1(2) forest_nodes_child[OF n Some] by blast
      from 1(1)[OF n ne Some this] show ?thesis
        using ne Some by (simp add: set_children_same)
    qed
  qed
  then show ?case by simp
qed

text \<open>
  C8. Toggling the same id twice gives back the forest it started from, and
  toggling an id that no node of the forest carries changes nothing.
\<close>

theorem toggleNodeCollapsed_involution:
  "toggleNodeCollapsed (toggleNodeCollapsed tree nodeId) nodeId = tree \<and>
   (nodeId \<notin> node_id ` set (forest_nodes tree) \<longrightarrow> toggleNodeCollapsed tree nodeId = tree)"
  using toggle_twice toggle_absent by blast

text \<open>
  On the sample forest: the id \<open>zzz\<close> is absent and the toggle leaves the forest
  as it is; the id \<open>color/bg\<close> is present, one toggle changes the forest and the
  second one restores it.
\<close>

theorem toggleNodeCollapsed_involution_witness:
  "''zzz'' \<notin> node_id ` set (forest_nodes sampleForest) \<and>
   toggleNodeCollapsed sampleForest ''zzz'' = sampleForest \<and>
   toggleNodeCollapsed sampleForest ''color/bg'' \<noteq> sampleForest \<and>
   toggleNodeCollapsed (toggleNodeCollapsed sampleForest ''color/bg'') ''color/bg''
     = sampleForest"
proof -
  have absent: "''zzz'' \<notin> node_id ` set (forest_nodes sampleForest)"
    by (simp add: sampleForest_def forest_eval)
  have changed: "toggleNodeCollapsed sampleForest ''color/bg'' \<noteq> sampleForest"
    by (simp add: sampleForest_def toggleNodeCollapsed_Nil toggleNodeCollapsed_Cons forest_eval)
  show ?thesis
    using absent changed
      toggleNodeCollapsed_involution[of sampleForest "''zzz''"]
      toggleNodeCollapsed_involution[of sampleForest "''color/bg''"]
    by simp
qed

subsection \<open>filterTree: blank queries and idempotence\<close>

lemma set_notNull: "x \<in> set (notNull xs) \<longleftrightarrow> Some x \<in> set xs"
  by (induction xs rule: notNull.induct) auto

lemma notNull_fixed: "(\<And>c. c \<in> set xs \<Longrightarrow> f c = Some c) \<Longrightarrow> notNull (map f xs) = xs"
  by (induction xs) auto

text \<open>A node that survives the match is a fixed point of the match.\<close>

lemma matchNode_idem: "matchNode q n = Some m \<Longrightarrow> matchNode q m = Some m"
proof (induction q n arbitrary: m rule: matchNode.induct)
  case (1 q n)
  show ?case
  proof (cases "node_type n = Variable")
    case True
    with 1(2) show ?thesis
      by (auto simp: matchNode.simps[of q n] matchNode.simps[of q m] Let_def split: if_splits)
  next
    case False
    define mc where
      "mc = (case children n of Some cs \<Rightarrow> notNull (map (matchNode q) cs) | None \<Rightarrow> [])"
    have m: "m = set_collapsed False (set_children (Some mc) n)"
      and cond: "0 < length mc \<or> includes_str (toLowerCase (node_id n)) q"
      using 1(2) False by (auto simp: matchNode.simps[of q n] Let_def mc_def split: if_splits)
    have survivor: "matchNode q c = Some c" if c: "c \<in> set mc" for c
    proof -
      from c obtain cs where cs: "children n = Some cs"
        and "c \<in> set (notNull (map (matchNode q) cs))"
        by (cases "children n") (auto simp: mc_def)
      then obtain x where "x \<in> set cs" "matchNode q x = Some c"
        by (auto simp: set_notNull)
      then show ?thesis using 1(1)[OF refl False cs] by blast
    qed
    have "notNull (map (matchNode q) mc) = mc"
      using survivor by (rule notNull_fixed)
    then show ?thesis
      using cond False unfolding m
      by (simp add: matchNode.simps[of q "set_collapsed False (set_children (Some mc) n)"] Let_def)
  qed
qed

lemma trim_blank: "list_all isWhiteSpace q \<Longrightarrow> trim q = []"
proof -
  assume "list_all isWhiteSpace q"
  then have "dropWhile isWhiteSpace q = []"
    by (simp add: list_all_iff)
  then show ?thesis
    unfolding trim_def by (simp only: rev.simps dropWhile.simps)
qed

lemma filterTree_idem: "filterTree (filterTree tree q) q = filterTree tree q"
proof (cases "trim q = []")
  case True
  then show ?thesis by (simp add: filterTree_def)
next
  case False
  have "matchNode (toLowerCase q) c = Some c"
    if "c \<in> set (notNull (map (matchNode (toLowerCase q)) tree))" for c
    using that by (auto simp: set_notNull dest: matchNode_idem[OF sym])
  then show ?thesis
    using False by (simp add: filterTree_def notNull_fixed)
qed

lemmas string_eval =
  trim_def isWhiteSpace_def toLowerCase_def toLowerChar_def char_of_def bit_Suc_0_iff

text \<open>
  C7. A query that is empty or holds white space only gives back the forest it
  was given, and filtering twice with one query gives what filtering once gives.
  The function builds its result from copies and assigns to no node of its
  input, so the model is a function of the forest's value and the input is the
  same value after the call.
\<close>

theorem filterTree_blank_idempotent:
  "(list_all isWhiteSpace query \<longrightarrow> filterTree tree query = tree) \<and>
   filterTree (filterTree tree query) query = filterTree tree query"
proof
  show "list_all isWhiteSpace query \<longrightarrow> filterTree tree query = tree"
    using trim_blank[of query] by (simp add: filterTree_def)
  show "filterTree (filterTree tree query) query = filterTree tree query"
    by (rule filterTree_idem)
qed

text \<open>
  On the sample forest: a query of two spaces returns the forest; the query
  \<open>BG\<close> keeps the group \<open>color/bg\<close> with its two leaves, expands the surviving
  groups, drops the leaf \<open>color/fg\<close>, and a second pass changes nothing more.
\<close>

theorem filterTree_blank_idempotent_witness:
  "list_all isWhiteSpace ''  '' \<and>
   filterTree sampleForest ''  '' = sampleForest \<and>
   filterTree sampleForest ''BG'' =
     [TreeNode ''color'' ''color'' Group (Some
        [TreeNode ''color/bg'' ''bg'' Group (Some
           [TreeNode ''color/bg/default'' ''default'' Variable None (Some ''v1'')
              True 2 False False None,
            TreeNode ''color/bg/hover'' ''hover'' Variable None (Some ''v2'')
              True 2 False False None])
           None False 1 False False None])
        None False 0 False False None] \<and>
   filterTree (filterTree sampleForest ''BG'') ''BG'' = filterTree sampleForest ''BG''"
proof -
  have blank: "list_all isWhiteSpace ''  ''"
    by (simp add: isWhiteSpace_def)
  have once: "filterTree sampleForest ''BG'' =
     [TreeNode ''color'' ''color'' Group (Some
        [TreeNode ''color/bg'' ''bg'' Group (Some
           [TreeNode ''color/bg/default'' ''default'' Variable None (Some ''v1'')
              True 2 False False None,
            TreeNode ''color/bg/hover'' ''hover'' Variable None (Some ''v2'')
              True 2 False False None])
           None False 1 False False None])
        None False 0 False False None]"
    by (simp add: sampleForest_def filterTree_def string_eval matchNode.simps Let_def
        set_collapsed_def set_children_def)
  have twice: "filterTree (filterTree sampleForest ''BG'') ''BG'' = filterTree sampleForest ''BG''"
    using filterTree_blank_idempotent[of "''BG''" sampleForest] by (rule conjunct2)
  have same: "filterTree sampleForest ''  '' = sampleForest"
    using filterTree_blank_idempotent[of "''  ''" sampleForest] blank by blast
  show ?thesis
    using blank once twice same by (intro conjI)
qed

subsection \<open>updateNodeChecked and the tri-state invariant\<close>

lemma updateAllChildren_Nil: "updateAllChildren [] chk = []"
  by (simp add: updateAllChildren.simps[of "[]"])

lemma updateAllChildren_Cons:
  "updateAllChildren (child # cs) chk =
     set_children
       (case children child of
          Some gs \<Rightarrow> Some (updateAllChildren gs chk)
        | None \<Rightarrow> None)
       (set_checked chk False child) # updateAllChildren cs chk"
  by (simp add: updateAllChildren.simps[of "child # cs"] updateAllChildren.simps[of cs])

lemma updateNodeChecked_Nil: "updateNodeChecked [] nodeId chk = []"
  by (simp add: updateNodeChecked.simps[of "[]"])

lemma updateNodeChecked_Cons:
  "updateNodeChecked (node # tree) nodeId chk =
     (if node_id node = nodeId then
         (let updated = set_checked chk False node in
          case children node of
            Some cs \<Rightarrow> set_children (Some (updateAllChildren cs chk)) updated
          | None \<Rightarrow> updated)
       else
         (case children node of
            Some cs \<Rightarrow>
              (let updatedChildren = updateNodeChecked cs nodeId chk;
                   checkedCount = length (filter checked updatedChildren);
                   indeterminateCount = length (filter indeterminate updatedChildren)
               in set_checked
                    (checkedCount = length updatedChildren)
                    ((0 < checkedCount \<and> checkedCount < length updatedChildren)
                       \<or> 0 < indeterminateCount)
                    (set_children (Some updatedChildren) node))
          | None \<Rightarrow> node)) # updateNodeChecked tree nodeId chk"
  by (simp add: updateNodeChecked.simps[of "node # tree"] updateNodeChecked.simps[of tree])

text \<open>A group that has an empty array of children, marked checked.\<close>

definition emptyGroup :: TreeNode where
  "emptyGroup = TreeNode ''g'' ''g'' Group (Some []) None True 0 True False None"

text \<open>A group, unchecked, whose one leaf is unchecked and marked indeterminate.\<close>

definition indeterminateLeafGroup :: TreeNode where
  "indeterminateLeafGroup =
     TreeNode ''g'' ''g'' Group (Some
       [TreeNode ''g/x'' ''x'' Variable None (Some ''v1'') True 1 False True None])
       None True 0 False False None"

lemma subtree_eq: "subtree n = n # descendants n"
  by (cases "children n") (simp_all add: subtree.simps[of n] descendants_def forest_nodes_def)

lemma forest_nodes_append: "forest_nodes (xs @ ys) = forest_nodes xs @ forest_nodes ys"
  by (simp add: forest_nodes_def)

lemma set_forest_nodes: "set (forest_nodes tree) = (\<Union>n\<in>set tree. set (subtree n))"
  by (simp add: forest_nodes_def)

lemma descendants_set [simp]:
  "descendants (set_children cs n) = (case cs of Some c \<Rightarrow> forest_nodes c | None \<Rightarrow> [])"
  "descendants (set_checked c i n) = descendants n"
  "descendants (set_collapsed b n) = descendants n"
  by (simp_all add: descendants_def)

lemma length_updateAllChildren [simp]: "length (updateAllChildren cs chk) = length cs"
  by (simp add: updateAllChildren.simps[of cs])

lemma length_updateNodeChecked [simp]: "length (updateNodeChecked t i chk) = length t"
  by (simp add: updateNodeChecked.simps[of t])

lemma updateAll_flags:
  "d \<in> set (forest_nodes (updateAllChildren cs chk)) \<Longrightarrow> checked d = chk \<and> \<not> indeterminate d"
proof (induction cs chk arbitrary: d rule: updateAllChildren.induct)
  case (1 cs chk)
  from 1(2) obtain child where c: "child \<in> set cs"
    and d: "d \<in> set (subtree (set_children
       (case children child of Some gs \<Rightarrow> Some (updateAllChildren gs chk) | None \<Rightarrow> None)
       (set_checked chk False child)))"
    by (auto simp: updateAllChildren.simps[of cs] set_forest_nodes)
  show ?case
  proof (cases "children child")
    case None
    with d show ?thesis by (simp add: subtree_eq)
  next
    case (Some gs)
    with d 1(1)[OF c Some] show ?thesis by (auto simp: subtree_eq)
  qed
qed

lemma wellFormedNode_set_checked:
  "wellFormedNode n \<Longrightarrow> wellFormedNode (set_checked c False n)"
  by (simp add: wellFormedNode_def split: NodeType.splits)

lemma updateAllChildren_Nil_iff [simp]: "updateAllChildren gs chk = [] \<longleftrightarrow> gs = []"
  by (metis length_updateAllChildren length_0_conv)

lemma updateNodeChecked_Nil_iff [simp]: "updateNodeChecked t i chk = [] \<longleftrightarrow> t = []"
  by (metis length_updateNodeChecked length_0_conv)

lemma updateAll_wf:
  "wellFormed cs \<Longrightarrow> wellFormed (updateAllChildren cs chk)"
proof (induction cs chk rule: updateAllChildren.induct)
  case (1 cs chk)
  show ?case unfolding wellFormed_def
  proof
    fix d assume "d \<in> set (forest_nodes (updateAllChildren cs chk))"
    then obtain child where c: "child \<in> set cs"
      and d: "d \<in> set (subtree (set_children
        (case children child of Some gs \<Rightarrow> Some (updateAllChildren gs chk) | None \<Rightarrow> None)
        (set_checked chk False child)))"
      by (auto simp: updateAllChildren.simps[of cs] set_forest_nodes)
    have wfc: "wellFormedNode child"
      using 1(2) c forest_nodes_root unfolding wellFormed_def by blast
    show "wellFormedNode d"
    proof (cases "children child")
      case None
      with d wfc show ?thesis
        by (simp add: subtree_eq wellFormedNode_def split: NodeType.splits)
    next
      case (Some gs)
      have "wellFormed gs"
        using 1(2) forest_nodes_child[OF c Some] unfolding wellFormed_def by blast
      from 1(1)[OF c Some this] d Some wfc show ?thesis
        by (auto simp: subtree_eq wellFormed_def wellFormedNode_def split: NodeType.splits)
    qed
  qed
qed

lemma subtree_child:
  "children n = Some cs \<Longrightarrow> c \<in> set cs \<Longrightarrow> set (subtree c) \<subseteq> set (subtree n)"
  by (auto simp: subtree_eq[of n] descendants_def set_forest_nodes)

lemma subtree_trans: "x \<in> set (subtree n) \<Longrightarrow> set (subtree x) \<subseteq> set (subtree n)"
proof (induction n rule: subtree.induct)
  case (1 n)
  show ?case
  proof (cases "x = n")
    case True then show ?thesis by simp
  next
    case False
    with 1(2) obtain cs c where cs: "children n = Some cs" and c: "c \<in> set cs"
      and x: "x \<in> set (subtree c)"
      by (cases "children n") (auto simp: subtree_eq[of n] descendants_def set_forest_nodes)
    from 1(1)[OF cs c x] subtree_child[OF cs c] show ?thesis by blast
  qed
qed

lemma forest_nodes_trans:
  "x \<in> set (forest_nodes t) \<Longrightarrow> set (subtree x) \<subseteq> set (forest_nodes t)"
  using subtree_trans by (fastforce simp: set_forest_nodes)

definition leavesOf :: "TreeNode \<Rightarrow> TreeNode list" where
  "leavesOf n = filter (\<lambda>d. node_type d = Variable) (subtree n)"

definition good :: "TreeNode \<Rightarrow> bool" where
  "good n \<longleftrightarrow>
     (checked n \<longleftrightarrow> (\<forall>l \<in> set (leavesOf n). checked l)) \<and>
     (indeterminate n \<longleftrightarrow>
        (\<exists>l \<in> set (leavesOf n). checked l) \<and> (\<exists>l \<in> set (leavesOf n). \<not> checked l))"

lemma leavesOf_group: "node_type n = Group \<Longrightarrow> leavesOf n = leafDescendants n"
  by (simp add: leavesOf_def leafDescendants_def subtree_eq)

lemma leavesOf_variable:
  "node_type n = Variable \<Longrightarrow> children n = None \<Longrightarrow> leavesOf n = [n]"
  by (simp add: leavesOf_def subtree_eq descendants_def)

lemma good_of_ok: "wellFormedNode n \<Longrightarrow> triStateNode n \<Longrightarrow> good n"
proof (cases "node_type n")
  case Group
  assume "triStateNode n"
  with Group show ?thesis by (simp add: good_def leavesOf_group triStateNode_def)
next
  case Variable
  assume "wellFormedNode n"
  with Variable show ?thesis
    by (simp add: good_def leavesOf_variable wellFormedNode_def)
qed

lemma leaves_nonempty:
  "(\<forall>x \<in> set (subtree n). wellFormedNode x) \<Longrightarrow> \<exists>l. l \<in> set (leavesOf n)"
proof (induction n rule: subtree.induct)
  case (1 n)
  have wfn: "wellFormedNode n" using 1(2) subtree_self by blast
  show ?case
  proof (cases "node_type n")
    case Variable
    with wfn show ?thesis by (auto simp: leavesOf_variable wellFormedNode_def)
  next
    case Group
    with wfn obtain cs where cs: "children n = Some cs" and "cs \<noteq> []"
      by (cases "children n") (auto simp: wellFormedNode_def)
    then obtain c where c: "c \<in> set cs"
      by (cases cs) auto
    have "\<forall>x \<in> set (subtree c). wellFormedNode x"
      using 1(2) subtree_child[OF cs c] by blast
    from 1(1)[OF cs c this] obtain l where "l \<in> set (leavesOf c)" by blast
    with subtree_child[OF cs c] show ?thesis by (auto simp: leavesOf_def)
  qed
qed

lemma count_all: "length (filter P xs) = length xs \<longleftrightarrow> (\<forall>x \<in> set xs. P x)"
  by (metis filter_True length_filter_less less_irrefl)

lemma count_some: "0 < length (filter P xs) \<longleftrightarrow> (\<exists>x \<in> set xs. P x)"
  by (induction xs) auto

lemma count_less: "length (filter P xs) < length xs \<longleftrightarrow> (\<exists>x \<in> set xs. \<not> P x)"
  by (metis filter_True length_filter_less less_irrefl)

lemma forest_leaves:
  "set (filter (\<lambda>d. node_type d = Variable) (forest_nodes uc)) = (\<Union>c \<in> set uc. set (leavesOf c))"
  by (auto simp: set_forest_nodes leavesOf_def)

lemma parent_flags:
  assumes g: "\<And>c. c \<in> set uc \<Longrightarrow> good c"
    and ne: "\<And>c. c \<in> set uc \<Longrightarrow> \<exists>l. l \<in> set (leavesOf c)"
  defines "L \<equiv> set (filter (\<lambda>d. node_type d = Variable) (forest_nodes uc))"
  shows "(length (filter checked uc) = length uc) \<longleftrightarrow> (\<forall>l \<in> L. checked l)"
    and "((0 < length (filter checked uc) \<and> length (filter checked uc) < length uc)
            \<or> 0 < length (filter indeterminate uc))
         \<longleftrightarrow> (\<exists>l \<in> L. checked l) \<and> (\<exists>l \<in> L. \<not> checked l)"
proof -
  have L: "L = (\<Union>c \<in> set uc. set (leavesOf c))"
    unfolding L_def by (rule forest_leaves)
  have chk: "checked c \<longleftrightarrow> (\<forall>l \<in> set (leavesOf c). checked l)" if "c \<in> set uc" for c
    using g[OF that] by (simp add: good_def)
  have ind: "indeterminate c \<longleftrightarrow>
      (\<exists>l \<in> set (leavesOf c). checked l) \<and> (\<exists>l \<in> set (leavesOf c). \<not> checked l)"
    if "c \<in> set uc" for c
    using g[OF that] by (simp add: good_def)
  show "(length (filter checked uc) = length uc) \<longleftrightarrow> (\<forall>l \<in> L. checked l)"
    unfolding count_all L using chk by auto
  show "((0 < length (filter checked uc) \<and> length (filter checked uc) < length uc)
            \<or> 0 < length (filter indeterminate uc))
         \<longleftrightarrow> (\<exists>l \<in> L. checked l) \<and> (\<exists>l \<in> L. \<not> checked l)"
    unfolding count_some count_less L
  proof
    assume "(\<exists>x\<in>set uc. checked x) \<and> (\<exists>x\<in>set uc. \<not> checked x) \<or> (\<exists>x\<in>set uc. indeterminate x)"
    then show "(\<exists>l\<in>\<Union>c\<in>set uc. set (leavesOf c). checked l) \<and>
      (\<exists>l\<in>\<Union>c\<in>set uc. set (leavesOf c). \<not> checked l)"
    proof
      assume "(\<exists>x\<in>set uc. checked x) \<and> (\<exists>x\<in>set uc. \<not> checked x)"
      then obtain a b where a: "a \<in> set uc" "checked a" and b: "b \<in> set uc" "\<not> checked b"
        by blast
      from ne[OF a(1)] chk[OF a(1)] a(2) obtain l where "l \<in> set (leavesOf a)" "checked l"
        by blast
      moreover from chk[OF b(1)] b(2) obtain l' where "l' \<in> set (leavesOf b)" "\<not> checked l'"
        by blast
      ultimately show ?thesis using a(1) b(1) by blast
    next
      assume "\<exists>x\<in>set uc. indeterminate x"
      then obtain a where a: "a \<in> set uc" "indeterminate a" by blast
      with ind[OF a(1)] show ?thesis by blast
    qed
  next
    assume r: "(\<exists>l\<in>\<Union>c\<in>set uc. set (leavesOf c). checked l) \<and>
      (\<exists>l\<in>\<Union>c\<in>set uc. set (leavesOf c). \<not> checked l)"
    then obtain a l b l' where a: "a \<in> set uc" "l \<in> set (leavesOf a)" "checked l"
      and b: "b \<in> set uc" "l' \<in> set (leavesOf b)" "\<not> checked l'"
      by blast
    show "(\<exists>x\<in>set uc. checked x) \<and> (\<exists>x\<in>set uc. \<not> checked x) \<or> (\<exists>x\<in>set uc. indeterminate x)"
    proof (cases "\<exists>x\<in>set uc. indeterminate x")
      case True then show ?thesis by blast
    next
      case False
      then have "\<not> indeterminate a" "\<not> indeterminate b" using a(1) b(1) by blast+
      with ind[OF a(1)] ind[OF b(1)] a b have "\<forall>l \<in> set (leavesOf a). checked l"
        by blast
      then have "checked a" using chk[OF a(1)] by blast
      moreover have "\<not> checked b" using chk[OF b(1)] b by blast
      ultimately show ?thesis using a(1) b(1) by blast
    qed
  qed
qed

lemma wellFormed_children:
  "wellFormed tree \<Longrightarrow> n \<in> set tree \<Longrightarrow> children n = Some cs \<Longrightarrow> wellFormed cs"
  using forest_nodes_child unfolding wellFormed_def by blast

lemma triState_children:
  "triState tree \<Longrightarrow> n \<in> set tree \<Longrightarrow> children n = Some cs \<Longrightarrow> triState cs"
  using forest_nodes_child unfolding triState_def by blast

lemma wellFormed_subtree:
  "wellFormed t \<Longrightarrow> x \<in> set (forest_nodes t) \<Longrightarrow> \<forall>y \<in> set (subtree x). wellFormedNode y"
  using forest_nodes_trans unfolding wellFormed_def by blast

lemma forest_has_leaf:
  assumes "wellFormed t" "t \<noteq> []"
  shows "\<exists>l. l \<in> set (filter (\<lambda>d. node_type d = Variable) (forest_nodes t))"
proof -
  from assms(2) obtain c where c: "c \<in> set t" by (cases t) auto
  from wellFormed_subtree[OF assms(1) forest_nodes_root[OF c]]
  obtain l where "l \<in> set (leavesOf c)" using leaves_nonempty by blast
  with c show ?thesis unfolding forest_leaves by blast
qed

lemma group_has_children:
  "wellFormedNode n \<Longrightarrow> children n = Some cs \<Longrightarrow> node_type n = Group \<and> cs \<noteq> []"
  by (cases "node_type n") (auto simp: wellFormedNode_def)

lemma no_children_variable:
  "wellFormedNode n \<Longrightarrow> children n = None \<Longrightarrow> node_type n = Variable"
  by (cases "node_type n") (auto simp: wellFormedNode_def)

lemma uniform_triStateNode:
  assumes wf: "wellFormedNode x" "node_type x = Group \<longrightarrow> checked x = chk \<and> \<not> indeterminate x"
    and sub: "\<forall>y \<in> set (descendants x). wellFormedNode y \<and> checked y = chk"
  shows "triStateNode x"
proof (cases "node_type x")
  case Variable
  then show ?thesis by (simp add: triStateNode_def)
next
  case Group
  with wf(1) obtain cs where cs: "children x = Some cs" "cs \<noteq> []"
    by (cases "children x") (auto simp: wellFormedNode_def)
  have d: "descendants x = forest_nodes cs" using cs by (simp add: descendants_def)
  have "wellFormed cs" using sub unfolding d wellFormed_def by blast
  from forest_has_leaf[OF this cs(2)] obtain l where "l \<in> set (leafDescendants x)"
    unfolding leafDescendants_def d by blast
  moreover have "\<forall>l \<in> set (leafDescendants x). checked l = chk"
    using sub by (simp add: leafDescendants_def)
  ultimately show ?thesis
    using wf(2) Group by (cases chk) (auto simp: triStateNode_def)
qed

lemma updateAll_tri:
  assumes "wellFormed cs"
  shows "triState (updateAllChildren cs chk)"
  unfolding triState_def
proof
  fix x assume x: "x \<in> set (forest_nodes (updateAllChildren cs chk))"
  have wf: "wellFormed (updateAllChildren cs chk)" using assms by (rule updateAll_wf)
  have sub: "set (descendants x) \<subseteq> set (forest_nodes (updateAllChildren cs chk))"
    using forest_nodes_trans[OF x] by (auto simp: subtree_eq)
  show "triStateNode x"
  proof (rule uniform_triStateNode[where chk = chk])
    show "wellFormedNode x" using wf x unfolding wellFormed_def by blast
    show "node_type x = Group \<longrightarrow> checked x = chk \<and> \<not> indeterminate x"
      using updateAll_flags[OF x] by simp
    show "\<forall>y\<in>set (descendants x). wellFormedNode y \<and> checked y = chk"
      using sub wf updateAll_flags unfolding wellFormed_def by blast
  qed
qed

lemma updateNodeChecked_ok:
  "wellFormed tree \<Longrightarrow> triState tree \<Longrightarrow>
   wellFormed (updateNodeChecked tree nodeId chk) \<and> triState (updateNodeChecked tree nodeId chk)"
proof (induction tree nodeId chk rule: updateNodeChecked.induct)
  case (1 tree nodeId chk)
  note wf = 1(2) and tri = 1(3)
  define F where "F = (\<lambda>node.
       if node_id node = nodeId then
         (let updated = set_checked chk False node in
          case children node of
            Some cs \<Rightarrow> set_children (Some (updateAllChildren cs chk)) updated
          | None \<Rightarrow> updated)
       else
         (case children node of
            Some cs \<Rightarrow>
              (let updatedChildren = updateNodeChecked cs nodeId chk;
                   checkedCount = length (filter checked updatedChildren);
                   indeterminateCount = length (filter indeterminate updatedChildren)
               in set_checked
                    (checkedCount = length updatedChildren)
                    ((0 < checkedCount \<and> checkedCount < length updatedChildren)
                       \<or> 0 < indeterminateCount)
                    (set_children (Some updatedChildren) node))
          | None \<Rightarrow> node))"
  have upd: "updateNodeChecked tree nodeId chk = map F tree"
    unfolding F_def by (rule updateNodeChecked.simps)
  have node_ok: "wellFormedNode x \<and> triStateNode x"
    if n: "n \<in> set tree" and x: "x \<in> set (subtree (F n))" for n x
  proof -
    have wfn: "wellFormedNode n" and trin: "triStateNode n"
      using wf tri forest_nodes_root[OF n] unfolding wellFormed_def triState_def by blast+
    show ?thesis
    proof (cases "children n")
      case None
      then have var: "node_type n = Variable" using wfn by (rule no_children_variable[rotated])
      have "F n = (if node_id n = nodeId then set_checked chk False n else n)"
        using None by (simp add: F_def)
      with x None have "x = set_checked chk False n \<or> x = n"
        by (auto simp: subtree_eq descendants_def split: if_splits)
      then show ?thesis
        using wfn trin var by (auto simp: wellFormedNode_set_checked triStateNode_def)
    next
      case (Some cs)
      from group_has_children[OF wfn Some] have grp: "node_type n = Group" and ne: "cs \<noteq> []"
        by simp_all
      have wfcs: "wellFormed cs" using wf n Some by (rule wellFormed_children)
      show ?thesis
      proof (cases "node_id n = nodeId")
        case True
        define ua where "ua = updateAllChildren cs chk"
        have Fn: "F n = set_children (Some ua) (set_checked chk False n)"
          using True Some by (simp add: F_def ua_def)
        have wfua: "wellFormed ua" unfolding ua_def using wfcs by (rule updateAll_wf)
        have triua: "triState ua" unfolding ua_def using wfcs by (rule updateAll_tri)
        have flags: "\<forall>y \<in> set (forest_nodes ua). checked y = chk"
          unfolding ua_def using updateAll_flags by blast
        have wfF: "wellFormedNode (F n)"
          using grp ne by (simp add: Fn wellFormedNode_def ua_def)
        have "triStateNode (F n)"
        proof (rule uniform_triStateNode[where chk = chk])
          show "wellFormedNode (F n)" by (rule wfF)
          show "node_type (F n) = Group \<longrightarrow> checked (F n) = chk \<and> \<not> indeterminate (F n)"
            by (simp add: Fn)
          show "\<forall>y\<in>set (descendants (F n)). wellFormedNode y \<and> checked y = chk"
            using wfua flags by (simp add: Fn wellFormed_def)
        qed
        moreover from x have "x = F n \<or> x \<in> set (forest_nodes ua)"
          by (auto simp: subtree_eq Fn)
        ultimately show ?thesis
          using wfF wfua triua unfolding wellFormed_def triState_def by blast
      next
        case False
        define uc where "uc = updateNodeChecked cs nodeId chk"
        have ih: "wellFormed uc \<and> triState uc"
          unfolding uc_def
          using 1(1)[OF n False Some wfcs triState_children[OF tri n Some]] .
        define A where "A = (length (filter checked uc) = length uc)"
        define B where "B = ((0 < length (filter checked uc) \<and> length (filter checked uc) < length uc)
                       \<or> 0 < length (filter indeterminate uc))"
        have Fn: "F n = set_checked A B (set_children (Some uc) n)"
          using False Some by (simp add: F_def uc_def A_def B_def Let_def)
        have ucne: "uc \<noteq> []" using ne by (simp add: uc_def)
        have wfF: "wellFormedNode (F n)"
          using grp ucne by (simp add: Fn wellFormedNode_def)
        have g: "good c" if "c \<in> set uc" for c
          using ih forest_nodes_root[OF that] good_of_ok
          unfolding wellFormed_def triState_def by blast
        have l: "\<exists>l. l \<in> set (leavesOf c)" if "c \<in> set uc" for c
          using wellFormed_subtree[OF conjunct1[OF ih] forest_nodes_root[OF that]]
          by (rule leaves_nonempty)
        have ld: "leafDescendants (F n) = filter (\<lambda>d. node_type d = Variable) (forest_nodes uc)"
          by (simp add: leafDescendants_def Fn)
        have "triStateNode (F n)"
          unfolding triStateNode_def ld
          using parent_flags[of uc, OF g l] by (simp add: Fn A_def B_def)
        moreover from x have "x = F n \<or> x \<in> set (forest_nodes uc)"
          by (auto simp: subtree_eq Fn)
        ultimately show ?thesis
          using wfF ih unfolding wellFormed_def triState_def by blast
      qed
    qed
  qed
  show ?case
    unfolding upd wellFormed_def triState_def using node_ok
    by (auto simp: set_forest_nodes)
qed

lemma updateNodeChecked_target:
  "m \<in> set (forest_nodes (updateNodeChecked tree nodeId chk)) \<Longrightarrow> node_id m = nodeId \<Longrightarrow>
   \<forall>d \<in> set (subtree m). checked d = chk \<and> \<not> indeterminate d"
proof (induction tree nodeId chk arbitrary: m rule: updateNodeChecked.induct)
  case (1 tree nodeId chk)
  from 1(2) obtain n where n: "n \<in> set tree"
    and m: "m \<in> set (subtree (hd (updateNodeChecked [n] nodeId chk)))"
    by (auto simp: updateNodeChecked.simps[of tree] updateNodeChecked_Cons updateNodeChecked_Nil
        set_forest_nodes)
  show ?case
  proof (cases "node_id n = nodeId")
    case True
    define ua where "ua = (case children n of Some cs \<Rightarrow> forest_nodes (updateAllChildren cs chk)
      | None \<Rightarrow> [])"
    have sub: "subtree (hd (updateNodeChecked [n] nodeId chk)) =
        hd (updateNodeChecked [n] nodeId chk) # ua"
      using True
      by (cases "children n")
        (simp_all add: updateNodeChecked_Cons updateNodeChecked_Nil subtree_eq ua_def descendants_def)
    have "\<forall>d \<in> set (subtree (hd (updateNodeChecked [n] nodeId chk))).
        checked d = chk \<and> \<not> indeterminate d"
      unfolding sub using True updateAll_flags
      by (cases "children n")
        (auto simp: updateNodeChecked_Cons updateNodeChecked_Nil ua_def)
    with subtree_trans[OF m] show ?thesis by blast
  next
    case False
    show ?thesis
    proof (cases "children n")
      case None
      with False m have "m = n"
        by (simp add: updateNodeChecked_Cons updateNodeChecked_Nil subtree_eq descendants_def)
      with False 1(3) show ?thesis by simp
    next
      case (Some cs)
      with False m have "node_id m = node_id n \<or>
          m \<in> set (forest_nodes (updateNodeChecked cs nodeId chk))"
        by (auto simp: updateNodeChecked_Cons updateNodeChecked_Nil subtree_eq Let_def)
      with False 1(3) have "m \<in> set (forest_nodes (updateNodeChecked cs nodeId chk))"
        by auto
      from 1(1)[OF n False Some this 1(3)] show ?thesis .
    qed
  qed
qed


text \<open>
  C5, the claim as stated, fails on a group without children and on a leaf that
  is marked indeterminate. The forest that holds one checked group with an empty
  array of children satisfies the invariant (all of its zero descendant leaves
  are checked); after \<^verbatim>\<open>updateNodeChecked(forest, "g", false)\<close> the group is
  unchecked while all of its descendant leaves are still checked. The forest
  that holds one unchecked group over one unchecked leaf satisfies the
  invariant, which says nothing of the flags of a leaf; when that leaf is marked
  indeterminate, after \<^verbatim>\<open>updateNodeChecked(forest, "zzz", true)\<close>, whose id no
  node carries, the group is indeterminate while none of its leaves is checked.
\<close>

theorem updateNodeChecked_triState_counterexample:
  "triState [emptyGroup] \<and> \<not> triState (updateNodeChecked [emptyGroup] ''g'' False) \<and>
   triState [indeterminateLeafGroup] \<and>
   \<not> triState (updateNodeChecked [indeterminateLeafGroup] ''zzz'' True)"
  by (simp add: emptyGroup_def indeterminateLeafGroup_def triState_def triStateNode_def
      leafDescendants_def forest_eval updateNodeChecked_Nil updateNodeChecked_Cons
      updateAllChildren_Nil Let_def)

text \<open>
  C5, amended. On a forest of the data model's shape (every group has at least
  one child; a variable has no children and is not indeterminate) that
  satisfies the tri-state invariant, \<^verbatim>\<open>updateNodeChecked\<close> returns a forest of
  that shape that satisfies the invariant; and every node of the result that
  carries the target id has, together with every node below it, the given
  checked value and indeterminate false.
\<close>

theorem updateNodeChecked_triState:
  assumes "wellFormed tree" and "triState tree"
  shows "wellFormed (updateNodeChecked tree nodeId chk) \<and>
         triState (updateNodeChecked tree nodeId chk) \<and>
         (\<forall>m \<in> set (forest_nodes (updateNodeChecked tree nodeId chk)).
            node_id m = nodeId \<longrightarrow>
            (\<forall>d \<in> set (subtree m). checked d = chk \<and> \<not> indeterminate d))"
  using updateNodeChecked_ok[OF assms] updateNodeChecked_target by blast

text \<open>
  On the sample forest, checking the group \<open>color/bg\<close>: the group and its two
  leaves become checked, the leaf \<open>color/fg\<close> stays unchecked, and the root
  \<open>color\<close> becomes indeterminate.
\<close>

theorem updateNodeChecked_triState_witness:
  "wellFormed sampleForest \<and> triState sampleForest \<and>
   updateNodeChecked sampleForest ''color/bg'' True =
     [TreeNode ''color'' ''color'' Group (Some
        [TreeNode ''color/bg'' ''bg'' Group (Some
           [TreeNode ''color/bg/default'' ''default'' Variable None (Some ''v1'')
              True 2 True False None,
            TreeNode ''color/bg/hover'' ''hover'' Variable None (Some ''v2'')
              True 2 True False None])
           None True 1 True False None,
         TreeNode ''color/fg'' ''fg'' Variable None (Some ''v3'') True 1 False False None])
        None True 0 False True None] \<and>
   wellFormed (updateNodeChecked sampleForest ''color/bg'' True) \<and>
   triState (updateNodeChecked sampleForest ''color/bg'' True)"
proof -
  have wf: "wellFormed sampleForest" by code_simp
  have tri: "triState sampleForest" by code_simp
  have upd: "updateNodeChecked sampleForest ''color/bg'' True =
     [TreeNode ''color'' ''color'' Group (Some
        [TreeNode ''color/bg'' ''bg'' Group (Some
           [TreeNode ''color/bg/default'' ''default'' Variable None (Some ''v1'')
              True 2 True False None,
            TreeNode ''color/bg/hover'' ''hover'' Variable None (Some ''v2'')
              True 2 True False None])
           None True 1 True False None,
         TreeNode ''color/fg'' ''fg'' Variable None (Some ''v3'') True 1 False False None])
        None True 0 False True None]"
    by (simp add: sampleForest_def updateNodeChecked_Cons updateNodeChecked_Nil
        updateAllChildren_Cons updateAllChildren_Nil Let_def forest_eval)
  from updateNodeChecked_triState[OF wf tri, of "''color/bg''" True]
  have "wellFormed (updateNodeChecked sampleForest ''color/bg'' True)"
    and "triState (updateNodeChecked sampleForest ''color/bg'' True)"
    by blast+
  with wf tri upd show ?thesis by (intro conjI)
qed

section \<open>Migration engine (code.js, services/variablesService.ts)\<close>

subsection \<open>The variable store of the host\<close>

text \<open>
  The plugin reads and writes variables through the host's API
  (\<^verbatim>\<open>figma.variables\<close>), which is not part of the repository. The model of the
  host is a store of variables and collections with the five operations the code
  calls. A variable and a collection are found by id; a mode belongs to a
  collection's ordered list of modes.

  \<^verbatim>\<open>valuesByMode\<close> is an object keyed by mode id; the model keeps its entries as
  an association list in the order in which \<^verbatim>\<open>Object.keys\<close> and
  \<^verbatim>\<open>Object.values\<close> enumerate them. A value is copied and never computed with; a
  number stands for a FLOAT value or a colour channel.
\<close>

datatype VariableResolvedDataType = BOOLEAN | FLOAT | STRING | COLOR

datatype VariableValue =
    BooleanValue bool
  | NumberValue int
  | StringValue string
  | RGBA int int int int
  | VariableAlias string

record Mode =
  modeId :: string
  mode_name :: string

record Collection =
  coll_id :: string
  coll_name :: string
  modes :: "Mode list"
  variableIds :: "string list"

record Variable =
  var_id :: string
  var_name :: string
  resolvedType :: VariableResolvedDataType
  variableCollectionId :: string
  valuesByMode :: "(string \<times> VariableValue) list"

record Store =
  variables :: "Variable list"
  collections :: "Collection list"

definition getVariableByIdAsync :: "Store \<Rightarrow> string \<Rightarrow> Variable option" where
  "getVariableByIdAsync s vid = find (\<lambda>v. var_id v = vid) (variables s)"

definition getVariableCollectionByIdAsync :: "Store \<Rightarrow> string \<Rightarrow> Collection option" where
  "getVariableCollectionByIdAsync s collectionId =
     find (\<lambda>c. coll_id c = collectionId) (collections s)"

text \<open>
  The host gives a new variable an id that no variable of the store has; the
  model takes a string longer than every id in use.
\<close>

definition freshId :: "Store \<Rightarrow> string" where
  "freshId s = replicate (Suc (foldr max (map (length \<circ> var_id) (variables s)) 0)) CHR ''#''"

text \<open>
  \<^verbatim>\<open>createVariable(name, collectionId, resolvedType)\<close>: the new variable joins the
  store and the collection's list of members. Its \<^verbatim>\<open>valuesByMode\<close> starts empty
  in the model, so that it holds exactly the values that \<^verbatim>\<open>setValueForMode\<close>
  writes afterwards.
\<close>

definition createVariable ::
  "string \<Rightarrow> string \<Rightarrow> VariableResolvedDataType \<Rightarrow> Store \<Rightarrow> string \<times> Store" where
  "createVariable nm collectionId ty s =
     (let newId = freshId s;
          newVariable = \<lparr>var_id = newId, var_name = nm, resolvedType = ty,
                         variableCollectionId = collectionId, valuesByMode = []\<rparr>
      in (newId,
          \<lparr>variables = variables s @ [newVariable],
           collections =
             map (\<lambda>c. if coll_id c = collectionId
                       then c\<lparr>variableIds := variableIds c @ [newId]\<rparr> else c)
                 (collections s)\<rparr>))"

text \<open>An assignment to a property of an object: a key that exists keeps its place.\<close>

fun assign :: "'k \<Rightarrow> 'v \<Rightarrow> ('k \<times> 'v) list \<Rightarrow> ('k \<times> 'v) list" where
  "assign k v [] = [(k, v)]"
| "assign k v (p # ps) = (if fst p = k then (k, v) # ps else p # assign k v ps)"

definition setValueForMode :: "string \<Rightarrow> string \<Rightarrow> VariableValue \<Rightarrow> Store \<Rightarrow> Store" where
  "setValueForMode vid mId val s =
     s\<lparr>variables :=
          map (\<lambda>v. if var_id v = vid
                    then v\<lparr>valuesByMode := assign mId val (valuesByMode v)\<rparr> else v)
              (variables s)\<rparr>"

definition remove_variable :: "string \<Rightarrow> Store \<Rightarrow> Store" where
  "remove_variable vid s =
     \<lparr>variables = filter (\<lambda>v. var_id v \<noteq> vid) (variables s),
      collections =
        map (\<lambda>c. c\<lparr>variableIds := filter (\<lambda>i. i \<noteq> vid) (variableIds c)\<rparr>)
            (collections s)\<rparr>"

subsection \<open>Variable data and getVariablesByCollection\<close>

text \<open>
  The plain record \<^verbatim>\<open>VariableData\<close> that the plugin passes around. Its name is
  a JavaScript value: \<^verbatim>\<open>buildTree\<close> and \<^verbatim>\<open>getVariablesByCollection\<close> of \<^verbatim>\<open>code.js\<close>
  test whether it is there and whether it is a string.
\<close>

datatype JSValue =
    JSUndefined
  | JSNull
  | JSString string
  | JSNumber int
  | JSBoolean bool
  | JSObject

fun truthy :: "JSValue \<Rightarrow> bool" where
  "truthy JSUndefined = False"
| "truthy JSNull = False"
| "truthy (JSString s) = (s \<noteq> [])"
| "truthy (JSNumber n) = (n \<noteq> 0)"
| "truthy (JSBoolean b) = b"
| "truthy JSObject = True"

record VariableData =
  vd_id :: string
  vd_name :: JSValue
  vd_resolvedType :: VariableResolvedDataType
  vd_collectionId :: string
  vd_valuesByMode :: "(string \<times> VariableValue) list"

definition toVariableData :: "Variable \<Rightarrow> VariableData" where
  "toVariableData variable =
     \<lparr>vd_id = var_id variable, vd_name = JSString (var_name variable),
      vd_resolvedType = resolvedType variable,
      vd_collectionId = variableCollectionId variable,
      vd_valuesByMode = valuesByMode variable\<rparr>"

text \<open>
  \<^verbatim>\<open>getVariablesByCollection\<close> of \<^verbatim>\<open>code.js\<close>: no collection gives the empty
  list; a member id that does not resolve and a variable with an empty name are
  left out.
\<close>

definition getVariablesByCollection_js :: "Store \<Rightarrow> string \<Rightarrow> VariableData list" where
  "getVariablesByCollection_js s collectionId =
     (case getVariableCollectionByIdAsync s collectionId of
        None \<Rightarrow> []
      | Some collection \<Rightarrow>
          (let found = map (getVariableByIdAsync s) (variableIds collection);
               validVariables =
                 filter (\<lambda>v. case v of None \<Rightarrow> False | Some w \<Rightarrow> var_name w \<noteq> []) found
           in map (toVariableData \<circ> the) validVariables))"

text \<open>
  \<^verbatim>\<open>getVariablesByCollection\<close> of \<^verbatim>\<open>variablesService.ts\<close>: only a member id
  that does not resolve is left out.
\<close>

definition getVariablesByCollection :: "Store \<Rightarrow> string \<Rightarrow> VariableData list" where
  "getVariablesByCollection s collectionId =
     (case getVariableCollectionByIdAsync s collectionId of
        None \<Rightarrow> []
      | Some collection \<Rightarrow>
          map toVariableData (notNull (map (getVariableByIdAsync s) (variableIds collection))))"

subsection \<open>validateModeCompatibility (code.js)\<close>

text \<open>
  The two error messages of the function, as values: the numbers of modes that
  differ, or the position (counted from one) and the two names that differ.
\<close>

datatype ModeError =
    CountMismatch nat nat
  | NameMismatch nat string string

datatype Validation =
    Compatible "string \<Rightarrow> string option"
  | Incompatible ModeError

text \<open>The loop that compares the names, from index \<open>i\<close> on.\<close>

function compareNames :: "nat \<Rightarrow> Mode list \<Rightarrow> Mode list \<Rightarrow> ModeError option" where
  "compareNames i sourceModes targetModes =
     (if i < length sourceModes then
        (if mode_name (sourceModes ! i) \<noteq> mode_name (targetModes ! i)
         then Some (NameMismatch (i + 1) (mode_name (sourceModes ! i)) (mode_name (targetModes ! i)))
         else compareNames (i + 1) sourceModes targetModes)
      else None)"
  by pat_completeness auto
termination
  by (relation "measure (\<lambda>(i, sourceModes, targetModes). length sourceModes - i)") auto

text \<open>The loop that fills \<^verbatim>\<open>modeMapping\<close>, from index \<open>i\<close> on.\<close>

function fillMapping ::
  "nat \<Rightarrow> Mode list \<Rightarrow> Mode list \<Rightarrow> (string \<Rightarrow> string option) \<Rightarrow> (string \<Rightarrow> string option)" where
  "fillMapping i sourceModes targetModes modeMapping =
     (if i < length sourceModes then
        fillMapping (i + 1) sourceModes targetModes
          (modeMapping(modeId (sourceModes ! i) \<mapsto> modeId (targetModes ! i)))
      else modeMapping)"
  by pat_completeness auto
termination
  by (relation "measure (\<lambda>(i, sourceModes, targetModes, m). length sourceModes - i)") auto

definition validateModeCompatibility :: "Collection \<Rightarrow> Collection \<Rightarrow> Validation" where
  "validateModeCompatibility sourceCollection targetCollection =
     (let sourceModes = modes sourceCollection;
          targetModes = modes targetCollection
      in if length sourceModes \<noteq> length targetModes
         then Incompatible (CountMismatch (length sourceModes) (length targetModes))
         else (case compareNames 0 sourceModes targetModes of
                 Some e \<Rightarrow> Incompatible e
               | None \<Rightarrow> Compatible (fillMapping 0 sourceModes targetModes Map.empty)))"

text \<open>
  Mode compatibility in the words of the data model: the same number of modes,
  and the same name at every position.
\<close>

definition modeCompatible :: "Collection \<Rightarrow> Collection \<Rightarrow> bool" where
  "modeCompatible source target =
     list_all2 (\<lambda>a b. mode_name a = mode_name b) (modes source) (modes target)"

subsection \<open>swapVariableCollection\<close>

text \<open>
  The code throws an \<^verbatim>\<open>Error\<close> with a message. The model returns the failure as
  a value: the variable, the source collection or the target collection is not
  found; the modes are incompatible, with the detail of the validation; the
  target holds a variable of that name (the name and the target's name); or the
  run time raises a type error on reading a property of \<^verbatim>\<open>undefined\<close>. The
  last value is no error of the code: it marks, in the model of \<^verbatim>\<open>buildTree\<close> of
  \<^verbatim>\<open>code.js\<close>, a result whose \<^verbatim>\<open>children\<close> arrays do not form a forest.
\<close>

datatype Failure =
    VariableNotFound
  | SourceCollectionNotFound
  | TargetCollectionNotFound
  | IncompatibleModes ModeError
  | DuplicateName string string
  | TypeError
  | NotAForest

text \<open>
  The loop of \<^verbatim>\<open>code.js\<close> over the source's \<^verbatim>\<open>valuesByMode\<close>: a value whose mode
  id has a mapped target mode id is set on the new variable, any other value is
  skipped. (\<^verbatim>\<open>if (targetModeId)\<close> also takes an empty string for no mapping.)
\<close>

fun transferValues ::
  "(string \<Rightarrow> string option) \<Rightarrow> string \<Rightarrow> (string \<times> VariableValue) list \<Rightarrow> Store \<Rightarrow> Store" where
  "transferValues modeMapping newId [] s = s"
| "transferValues modeMapping newId ((sourceModeId, val) # rest) s =
     transferValues modeMapping newId rest
       (case modeMapping sourceModeId of
          Some targetModeId \<Rightarrow>
            if targetModeId \<noteq> [] then setValueForMode newId targetModeId val s else s
        | None \<Rightarrow> s)"

text \<open>\<^verbatim>\<open>swapVariableCollection\<close> of \<^verbatim>\<open>code.js\<close>; it returns the variable's name.\<close>

definition swapVariableCollection_js ::
  "string \<Rightarrow> string \<Rightarrow> string \<Rightarrow> Store \<Rightarrow> (Failure + string) \<times> Store" where
  "swapVariableCollection_js vid sourceCollectionId targetCollectionId s =
     (case getVariableByIdAsync s vid of
        None \<Rightarrow> (Inl VariableNotFound, s)
      | Some variable \<Rightarrow>
     (case getVariableCollectionByIdAsync s sourceCollectionId of
        None \<Rightarrow> (Inl SourceCollectionNotFound, s)
      | Some sourceCollection \<Rightarrow>
     (case getVariableCollectionByIdAsync s targetCollectionId of
        None \<Rightarrow> (Inl TargetCollectionNotFound, s)
      | Some targetCollection \<Rightarrow>
     (case validateModeCompatibility sourceCollection targetCollection of
        Incompatible e \<Rightarrow> (Inl (IncompatibleModes e), s)
      | Compatible modeMapping \<Rightarrow>
          (let existingVars = getVariablesByCollection_js s targetCollectionId in
           case find (\<lambda>v. vd_name v = JSString (var_name variable)) existingVars of
             Some duplicate \<Rightarrow>
               (Inl (DuplicateName (var_name variable) (coll_name targetCollection)), s)
           | None \<Rightarrow>
               (let (newId, s1) =
                      createVariable (var_name variable) targetCollectionId
                        (resolvedType variable) s;
                    s2 = transferValues modeMapping newId (valuesByMode variable) s1;
                    s3 = remove_variable (var_id variable) s2
                in (Inr (var_name variable), s3)))))))"

text \<open>
  \<^verbatim>\<open>swapVariableCollection\<close> of \<^verbatim>\<open>services/variablesService.ts\<close>: no source
  collection and no validation of the modes; the first of the source's values
  goes to the first mode of the target. Reading \<^verbatim>\<open>targetModes[0].modeId\<close> of a
  collection without modes raises, after the new variable is created.
\<close>

definition swapVariableCollection ::
  "string \<Rightarrow> string \<Rightarrow> Store \<Rightarrow> (Failure + unit) \<times> Store" where
  "swapVariableCollection vid targetCollectionId s =
     (case getVariableByIdAsync s vid of
        None \<Rightarrow> (Inl VariableNotFound, s)
      | Some variable \<Rightarrow>
     (case getVariableCollectionByIdAsync s targetCollectionId of
        None \<Rightarrow> (Inl TargetCollectionNotFound, s)
      | Some targetCollection \<Rightarrow>
          (let existingVars = getVariablesByCollection s targetCollectionId in
           case find (\<lambda>v. vd_name v = JSString (var_name variable)) existingVars of
             Some duplicate \<Rightarrow>
               (Inl (DuplicateName (var_name variable) (coll_name targetCollection)), s)
           | None \<Rightarrow>
               (let (newId, s1) =
                      createVariable (var_name variable) targetCollectionId
                        (resolvedType variable) s;
                    sourceModes = valuesByMode variable;
                    targetModes = modes targetCollection
                in case targetModes of
                     [] \<Rightarrow> (Inl TypeError, s1)
                   | targetMode # others \<Rightarrow>
                       (let targetModeId = modeId targetMode;
                            sourceValues = map snd sourceModes;
                            s2 = (if 0 < length sourceValues
                                  then setValueForMode newId targetModeId (hd sourceValues) s1
                                  else s1);
                            s3 = remove_variable (var_id variable) s2
                        in (Inr (), s3))))))"

subsection \<open>batchSwapVariables\<close>

record 'a Results =
  success :: "'a list"
  failed :: "(string \<times> Failure) list"

text \<open>
  \<^verbatim>\<open>batchSwapVariables\<close> of \<^verbatim>\<open>code.js\<close>: \<^verbatim>\<open>processNext(index)\<close> chains the
  promises one after the other. Each step ends in \<^verbatim>\<open>catch\<close> and the last one
  resolves, so the promise of the batch is never rejected.
\<close>

function processNext ::
  "string list \<Rightarrow> string \<Rightarrow> string \<Rightarrow> nat \<Rightarrow> (string \<times> string) Results \<Rightarrow> Store
     \<Rightarrow> (string \<times> string) Results \<times> Store" where
  "processNext ids sourceCollectionId targetCollectionId index results s =
     (if index \<ge> length ids then (results, s)
      else
        (let varId = ids ! index in
         case swapVariableCollection_js varId sourceCollectionId targetCollectionId s of
           (Inr variableName, s') \<Rightarrow>
             processNext ids sourceCollectionId targetCollectionId (index + 1)
               (results\<lparr>success := success results @ [(varId, variableName)]\<rparr>) s'
         | (Inl error, s') \<Rightarrow>
             processNext ids sourceCollectionId targetCollectionId (index + 1)
               (results\<lparr>failed := failed results @ [(varId, error)]\<rparr>) s'))"
  by pat_completeness auto
termination
  by (relation "measure (\<lambda>(ids, src, tgt, index, results, s). length ids - index)")
    auto

definition batchSwapVariables_js ::
  "string list \<Rightarrow> string \<Rightarrow> string \<Rightarrow> Store \<Rightarrow> (string \<times> string) Results \<times> Store" where
  "batchSwapVariables_js ids sourceCollectionId targetCollectionId s =
     processNext ids sourceCollectionId targetCollectionId 0
       \<lparr>success = [], failed = []\<rparr> s"

text \<open>
  \<^verbatim>\<open>batchSwapVariables\<close> of \<^verbatim>\<open>services/variablesService.ts\<close>: the loop
  \<^verbatim>\<open>for (const varId of variableIds)\<close> with \<^verbatim>\<open>try\<close> and \<^verbatim>\<open>catch\<close> around each call.
\<close>

fun batchLoop ::
  "string list \<Rightarrow> string \<Rightarrow> string Results \<Rightarrow> Store \<Rightarrow> string Results \<times> Store" where
  "batchLoop [] targetCollectionId results s = (results, s)"
| "batchLoop (varId # rest) targetCollectionId results s =
     (case swapVariableCollection varId targetCollectionId s of
        (Inr u, s') \<Rightarrow>
          batchLoop rest targetCollectionId (results\<lparr>success := success results @ [varId]\<rparr>) s'
      | (Inl error, s') \<Rightarrow>
          batchLoop rest targetCollectionId
            (results\<lparr>failed := failed results @ [(varId, error)]\<rparr>) s')"

definition batchSwapVariables ::
  "string list \<Rightarrow> string \<Rightarrow> Store \<Rightarrow> string Results \<times> Store" where
  "batchSwapVariables ids targetCollectionId s =
     batchLoop ids targetCollectionId \<lparr>success = [], failed = []\<rparr> s"

subsection \<open>The sequential reading of a batch\<close>

text \<open>
  What the specification asks of a batch, for any operation \<open>step\<close> on one id:
  the ids are attempted one by one in the order of the input, each attempt in the
  store that the attempts before it left. \<open>attempts\<close> pairs every id with the
  outcome of its attempt, \<open>finalStore\<close> is the store after the last attempt,
  and \<open>succeeded\<close> and \<open>failures\<close> split the attempts by outcome.
\<close>

fun attempts ::
  "(string \<Rightarrow> Store \<Rightarrow> ('e + 'a) \<times> Store) \<Rightarrow> string list \<Rightarrow> Store \<Rightarrow> (string \<times> ('e + 'a)) list" where
  "attempts step [] s = []"
| "attempts step (varId # rest) s =
     (varId, fst (step varId s)) # attempts step rest (snd (step varId s))"

fun finalStore ::
  "(string \<Rightarrow> Store \<Rightarrow> ('e + 'a) \<times> Store) \<Rightarrow> string list \<Rightarrow> Store \<Rightarrow> Store" where
  "finalStore step [] s = s"
| "finalStore step (varId # rest) s = finalStore step rest (snd (step varId s))"

fun succeeded :: "(string \<times> ('e + 'a)) list \<Rightarrow> (string \<times> 'a) list" where
  "succeeded [] = []"
| "succeeded ((varId, Inr r) # rest) = (varId, r) # succeeded rest"
| "succeeded ((varId, Inl e) # rest) = succeeded rest"

fun failures :: "(string \<times> ('e + 'a)) list \<Rightarrow> (string \<times> 'e) list" where
  "failures [] = []"
| "failures ((varId, Inr r) # rest) = failures rest"
| "failures ((varId, Inl e) # rest) = (varId, e) # failures rest"

text \<open>
  A collection holds a name when one of its member ids resolves to a variable of
  that name.
\<close>

definition holdsName :: "Store \<Rightarrow> Collection \<Rightarrow> string \<Rightarrow> bool" where
  "holdsName s collection nm =
     list_ex (\<lambda>i. case getVariableByIdAsync s i of Some w \<Rightarrow> var_name w = nm | None \<Rightarrow> False)
       (variableIds collection)"

text \<open>The operation on one id that each of the two batches repeats.\<close>

definition step_js :: "string \<Rightarrow> string \<Rightarrow> string \<Rightarrow> Store \<Rightarrow> (Failure + string) \<times> Store" where
  "step_js src tgt = (\<lambda>varId. swapVariableCollection_js varId src tgt)"

definition step_ts :: "string \<Rightarrow> string \<Rightarrow> Store \<Rightarrow> (Failure + unit) \<times> Store" where
  "step_ts tgt = (\<lambda>varId. swapVariableCollection varId tgt)"

subsection \<open>A store for the scenarios\<close>

text \<open>Two collections for the scenarios: modes Light and Dark, and mode Light alone.\<close>

definition lightDark :: "string \<Rightarrow> string \<Rightarrow> Collection" where
  "lightDark cid p =
     \<lparr>coll_id = cid, coll_name = cid,
      modes = [\<lparr>modeId = p @ '':0'', mode_name = ''Light''\<rparr>,
               \<lparr>modeId = p @ '':1'', mode_name = ''Dark''\<rparr>],
      variableIds = []\<rparr>"

definition lightOnly :: "string \<Rightarrow> string \<Rightarrow> Collection" where
  "lightOnly cid p =
     \<lparr>coll_id = cid, coll_name = cid,
      modes = [\<lparr>modeId = p @ '':0'', mode_name = ''Light''\<rparr>],
      variableIds = []\<rparr>"

text \<open>
  Collections \<open>A\<close> and \<open>B\<close> have the modes Light and Dark, collection \<open>C\<close> has
  the mode Light alone. \<open>A\<close> holds \<open>color/bg\<close> and \<open>color/fg\<close>; \<open>B\<close> and \<open>C\<close>
  each hold a variable named \<open>color/fg\<close>.
\<close>

definition collA :: Collection where
  "collA = (lightDark ''A'' ''1'')\<lparr>variableIds := [''v1'', ''v2'']\<rparr>"

definition collB :: Collection where
  "collB = (lightDark ''B'' ''2'')\<lparr>variableIds := [''v3'']\<rparr>"

definition collC :: Collection where
  "collC = (lightOnly ''C'' ''3'')\<lparr>variableIds := [''v4'']\<rparr>"

definition var1 :: Variable where
  "var1 = \<lparr>var_id = ''v1'', var_name = ''color/bg'', resolvedType = COLOR,
           variableCollectionId = ''A'',
           valuesByMode = [(''1:0'', RGBA 1 1 1 1), (''1:1'', RGBA 0 0 0 1)]\<rparr>"

definition var2 :: Variable where
  "var2 = \<lparr>var_id = ''v2'', var_name = ''color/fg'', resolvedType = COLOR,
           variableCollectionId = ''A'',
           valuesByMode = [(''1:0'', RGBA 0 0 0 1), (''1:1'', RGBA 1 1 1 1)]\<rparr>"

definition var3 :: Variable where
  "var3 = \<lparr>var_id = ''v3'', var_name = ''color/fg'', resolvedType = COLOR,
           variableCollectionId = ''B'',
           valuesByMode = [(''2:0'', RGBA 0 0 0 1), (''2:1'', RGBA 1 1 1 1)]\<rparr>"

definition var4 :: Variable where
  "var4 = \<lparr>var_id = ''v4'', var_name = ''color/fg'', resolvedType = COLOR,
           variableCollectionId = ''C'',
           valuesByMode = [(''3:0'', RGBA 0 0 0 1)]\<rparr>"

definition exampleStore :: Store where
  "exampleStore =
     \<lparr>variables = [var1, var2, var3, var4], collections = [collA, collB, collC]\<rparr>"

section \<open>buildTree\<close>

subsection \<open>Splitting a name\<close>

text \<open>
  The separator of name segments is the slash. \<^verbatim>\<open>name.split(SEPARATOR)\<close> on a
  string gives the segments between the separators, the empty ones included, and
  never the empty list; on a value that is not a string the call raises a type
  error.
\<close>

definition SEPARATOR :: char where
  "SEPARATOR = CHR ''/''"

fun split_str :: "string \<Rightarrow> char \<Rightarrow> string list" where
  "split_str [] sep = [[]]"
| "split_str (c # cs) sep =
     (if c = sep then [] # split_str cs sep
      else (case split_str cs sep of
              part # parts \<Rightarrow> (c # part) # parts
            | [] \<Rightarrow> [[c]]))"

fun js_split :: "JSValue \<Rightarrow> char \<Rightarrow> Failure + string list" where
  "js_split (JSString s) sep = Inr (split_str s sep)"
| "js_split v sep = Inl TypeError"

text \<open>A loop whose body may raise: the first failure ends it.\<close>

fun foldE :: "('s \<Rightarrow> 'a \<Rightarrow> Failure + 's) \<Rightarrow> 'a list \<Rightarrow> 's \<Rightarrow> Failure + 's" where
  "foldE f [] s = Inr s"
| "foldE f (x # xs) s = (case f s x of Inl e \<Rightarrow> Inl e | Inr s' \<Rightarrow> foldE f xs s')"

subsection \<open>buildTree of utils/treeBuilder.ts\<close>

text \<open>
  A \<^verbatim>\<open>Map\<close> from paths to nodes keeps its keys in the order of insertion;
  \<^verbatim>\<open>set\<close> on a key that is there keeps the key's place.
\<close>

type_synonym NodeMap = "(string \<times> TreeNode) list"

definition Map_has :: "NodeMap \<Rightarrow> string \<Rightarrow> bool" where
  "Map_has m k = (map_of m k \<noteq> None)"

definition Map_get :: "NodeMap \<Rightarrow> string \<Rightarrow> TreeNode option" where
  "Map_get m k = map_of m k"

definition Map_set :: "NodeMap \<Rightarrow> string \<Rightarrow> TreeNode \<Rightarrow> NodeMap" where
  "Map_set m k v = assign k v m"

definition Map_values :: "NodeMap \<Rightarrow> TreeNode list" where
  "Map_values m = map snd m"

text \<open>
  The variable \<^verbatim>\<open>currentLevel\<close> refers either to the map \<^verbatim>\<open>root\<close> itself, so
  that a \<^verbatim>\<open>set\<close> through it changes \<^verbatim>\<open>root\<close>, or to a map that the loop has
  made with \<^verbatim>\<open>new Map()\<close> and that nothing else refers to.
\<close>

datatype Level = RootLevel | NextLevel NodeMap

text \<open>
  The body of \<^verbatim>\<open>parts.forEach\<close>, on the state \<^verbatim>\<open>(root, currentLevel, currentPath)\<close>.
  The node is stored in the map that \<^verbatim>\<open>currentLevel\<close> refers to. The next level
  is a new map filled from the \<^verbatim>\<open>children\<close> array of the current node; no
  statement of the function adds to a \<^verbatim>\<open>children\<close> array.
\<close>

definition visitPart ::
  "string \<Rightarrow> nat \<Rightarrow> NodeMap \<times> Level \<times> string \<Rightarrow> nat \<times> string
     \<Rightarrow> Failure + NodeMap \<times> Level \<times> string" where
  "visitPart variable_id parts_length state indexed_part =
     (case state of (root, currentLevel, currentPath0) \<Rightarrow>
      case indexed_part of (index, part) \<Rightarrow>
      (let currentPath = currentPath0 @ (if currentPath0 \<noteq> [] then [SEPARATOR] else []) @ part;
           isLeaf = (index = parts_length - 1);
           levelMap = (case currentLevel of RootLevel \<Rightarrow> root | NextLevel m \<Rightarrow> m);
           node = TreeNode currentPath part (if isLeaf then Variable else Group)
                    (if isLeaf then None else Some [])
                    (if isLeaf then Some variable_id else None)
                    True index False False None;
           levelMap' = (if \<not> Map_has levelMap currentPath
                        then Map_set levelMap currentPath node else levelMap);
           root' = (case currentLevel of RootLevel \<Rightarrow> levelMap' | NextLevel m \<Rightarrow> root);
           currentLevel' =
             (case currentLevel of RootLevel \<Rightarrow> RootLevel | NextLevel m \<Rightarrow> NextLevel levelMap')
       in case Map_get levelMap' currentPath of
            None \<Rightarrow> Inl TypeError
          | Some currentNode \<Rightarrow>
              (case children currentNode of
                 Some cs \<Rightarrow>
                   if \<not> isLeaf
                   then Inr (root',
                             NextLevel (fold (\<lambda>child m. Map_set m (node_id child) child) cs []),
                             currentPath)
                   else Inr (root', currentLevel', currentPath)
               | None \<Rightarrow> Inr (root', currentLevel', currentPath))))"

text \<open>The body of the loop over the variables, on the map \<^verbatim>\<open>root\<close>.\<close>

definition visitVariable :: "NodeMap \<Rightarrow> VariableData \<Rightarrow> Failure + NodeMap" where
  "visitVariable root variable =
     (case js_split (vd_name variable) SEPARATOR of
        Inl e \<Rightarrow> Inl e
      | Inr parts \<Rightarrow>
          (case foldE (visitPart (vd_id variable) (length parts)) (List.enumerate 0 parts)
                  (root, RootLevel, []) of
             Inl e \<Rightarrow> Inl e
           | Inr (root', currentLevel, currentPath) \<Rightarrow> Inr root'))"

function flattenNode :: "TreeNode \<Rightarrow> TreeNode" where
  "flattenNode node =
     (case children node of
        Some cs \<Rightarrow>
          if node_type node = Group then set_children (Some (map flattenNode cs)) node
          else node
      | None \<Rightarrow> node)"
  by pat_completeness auto
termination
  by (relation "measure size") (auto simp: children_size)

definition buildTree :: "VariableData list \<Rightarrow> Failure + TreeNode list" where
  "buildTree vars =
     (case foldE visitVariable vars [] of
        Inl e \<Rightarrow> Inl e
      | Inr root \<Rightarrow> Inr (map flattenNode (Map_values root)))"

text \<open>The variables of the scenario, by name.\<close>

definition variableNamed :: "string \<Rightarrow> string \<Rightarrow> VariableData" where
  "variableNamed i nm =
     \<lparr>vd_id = i, vd_name = JSString nm, vd_resolvedType = COLOR,
      vd_collectionId = ''A'', vd_valuesByMode = []\<rparr>"

definition scenarioVariables :: "VariableData list" where
  "scenarioVariables =
     [variableNamed ''v1'' ''color/bg/default'',
      variableNamed ''v2'' ''color/bg/hover'',
      variableNamed ''v3'' ''color/fg'']"

subsection \<open>buildTree of code.js\<close>

text \<open>
  The first pass fills the object \<^verbatim>\<open>nodeMap\<close>, keyed by path; the second pass
  links every node to its parent by \<^verbatim>\<open>parent.children.push(node)\<close>. A node is
  an object that several arrays and the map refer to, and the second pass changes
  nodes that are already in an array. The model keeps the objects in the map and
  lets a \<^verbatim>\<open>children\<close> array hold the paths of its nodes: a node object is made
  once, under its own path, so the path names the object.

  The map holds the own properties of \<^verbatim>\<open>nodeMap\<close> in the order of their
  creation. (The properties that a JavaScript object inherits, such as
  \<^verbatim>\<open>constructor\<close>, are outside the model.)
\<close>

record NodeObject =
  obj_id :: string
  obj_name :: string
  obj_type :: NodeType
  obj_level :: nat
  obj_collapsed :: bool
  obj_checked :: bool
  obj_indeterminate :: bool
  obj_parentPath :: "string option"
  obj_variableId :: "string option"
  obj_children :: "string list option"

type_synonym ObjectMap = "(string \<times> NodeObject) list"

fun typeof_string :: "JSValue \<Rightarrow> bool" where
  "typeof_string (JSString s) = True"
| "typeof_string v = False"

text \<open>
  The body of the loop over the parts of one name, on the state
  \<^verbatim>\<open>(nodeMap, currentPath)\<close>. An empty or blank part is passed over; the index
  \<open>j\<close> of the next part counts it all the same.
\<close>

definition visitPart_js ::
  "string \<Rightarrow> nat \<Rightarrow> nat \<times> string \<Rightarrow> ObjectMap \<times> string \<Rightarrow> ObjectMap \<times> string" where
  "visitPart_js variable_id parts_length indexed_part state =
     (case indexed_part of (j, part) \<Rightarrow>
      case state of (nodeMap, currentPath0) \<Rightarrow>
      if part = [] \<or> trim part = [] then (nodeMap, currentPath0)
      else
        (let parent_path = currentPath0;
             currentPath = currentPath0 @ (if currentPath0 \<noteq> [] then [SEPARATOR] else []) @ part;
             isLeaf = (j = parts_length - 1)
         in if map_of nodeMap currentPath = None
            then (assign currentPath
                    \<lparr>obj_id = currentPath, obj_name = part,
                     obj_type = (if isLeaf then Variable else Group),
                     obj_level = j, obj_collapsed = True, obj_checked = False,
                     obj_indeterminate = False,
                     obj_parentPath = (if parent_path \<noteq> [] then Some parent_path else None),
                     obj_variableId = (if isLeaf then Some variable_id else None),
                     obj_children = (if isLeaf then None else Some [])\<rparr>
                    nodeMap,
                  currentPath)
            else (nodeMap, currentPath)))"

text \<open>The body of the first loop over the variables.\<close>

definition visitVariable_js :: "ObjectMap \<Rightarrow> VariableData \<Rightarrow> Failure + ObjectMap" where
  "visitVariable_js nodeMap variable =
     (if \<not> truthy (vd_name variable) \<or> \<not> typeof_string (vd_name variable) then Inr nodeMap
      else (case js_split (vd_name variable) SEPARATOR of
              Inl e \<Rightarrow> Inl e
            | Inr parts \<Rightarrow>
                Inr (fst (fold (visitPart_js (vd_id variable) (length parts))
                            (List.enumerate 0 parts) (nodeMap, [])))))"

text \<open>
  \<^verbatim>\<open>for (var path in nodeMap)\<close> visits the keys that are array indices first, in
  ascending order, and then the other keys in the order of their creation. An
  array index is the decimal numeral, without a leading zero, of a number below
  \<open>2\<^sup>3\<^sup>2 - 1\<close>.
\<close>

definition isDigit :: "char \<Rightarrow> bool" where
  "isDigit c = (48 \<le> (of_char c :: nat) \<and> (of_char c :: nat) \<le> 57)"

text \<open>
  Numerals without leading zeros are ordered as their numbers are when the
  shorter one comes first and numerals of one length are compared digit by digit.
\<close>

fun digitsLess :: "string \<Rightarrow> string \<Rightarrow> bool" where
  "digitsLess [] [] = False"
| "digitsLess [] (b # bs) = True"
| "digitsLess (a # as) [] = False"
| "digitsLess (a # as) (b # bs) =
     ((of_char a :: nat) < of_char b \<or> (a = b \<and> digitsLess as bs))"

definition indexLess :: "string \<Rightarrow> string \<Rightarrow> bool" where
  "indexLess a b = (length a < length b \<or> (length a = length b \<and> digitsLess a b))"

definition isArrayIndex :: "string \<Rightarrow> bool" where
  "isArrayIndex s =
     (s \<noteq> [] \<and> list_all isDigit s \<and> (hd s \<noteq> CHR ''0'' \<or> s = ''0'') \<and>
      \<not> indexLess ''4294967294'' s)"

fun insertIndex :: "string \<Rightarrow> string list \<Rightarrow> string list" where
  "insertIndex k [] = [k]"
| "insertIndex k (x # xs) = (if indexLess k x then k # x # xs else x # insertIndex k xs)"

definition sortIndices :: "string list \<Rightarrow> string list" where
  "sortIndices ks = foldr insertIndex ks []"

definition forInOrder :: "string list \<Rightarrow> string list" where
  "forInOrder keys =
     sortIndices (filter isArrayIndex keys) @ filter (\<lambda>k. \<not> isArrayIndex k) keys"

text \<open>
  The body of the second loop, on the state \<^verbatim>\<open>(nodeMap, rootNodes)\<close>; the list
  \<^verbatim>\<open>rootNodes\<close> holds paths as the \<^verbatim>\<open>children\<close> arrays do.
\<close>

definition linkNode :: "string \<Rightarrow> ObjectMap \<times> string list \<Rightarrow> ObjectMap \<times> string list" where
  "linkNode path state =
     (case state of (nodeMap, rootNodes) \<Rightarrow>
      case map_of nodeMap path of
        None \<Rightarrow> (nodeMap, rootNodes)
      | Some node \<Rightarrow>
          (case obj_parentPath node of
             None \<Rightarrow> (nodeMap, rootNodes @ [path])
           | Some parent_path \<Rightarrow>
               if parent_path = [] then (nodeMap, rootNodes @ [path])
               else
                 (case map_of nodeMap parent_path of
                    None \<Rightarrow> (nodeMap, rootNodes @ [path])
                  | Some parent \<Rightarrow>
                      (let cs = (case obj_children parent of None \<Rightarrow> [] | Some cs \<Rightarrow> cs)
                       in (assign parent_path (parent\<lparr>obj_children := Some (cs @ [path])\<rparr>) nodeMap,
                           rootNodes)))))"

text \<open>
  The forest that the caller receives: the objects that \<^verbatim>\<open>rootNodes\<close> refers to,
  with their \<^verbatim>\<open>children\<close> arrays followed down to the leaves. The depth that is
  followed is bounded; an object graph deeper than the bound is no forest.
\<close>

fun materialize :: "nat \<Rightarrow> ObjectMap \<Rightarrow> string \<Rightarrow> TreeNode option" where
  "materialize 0 nodeMap path = None"
| "materialize (Suc fuel) nodeMap path =
     (case map_of nodeMap path of
        None \<Rightarrow> None
      | Some obj \<Rightarrow>
          (case obj_children obj of
             None \<Rightarrow>
               Some (TreeNode (obj_id obj) (obj_name obj) (obj_type obj) None
                       (obj_variableId obj) (obj_collapsed obj) (obj_level obj)
                       (obj_checked obj) (obj_indeterminate obj) (obj_parentPath obj))
           | Some cs \<Rightarrow>
               (case those (map (materialize fuel nodeMap) cs) of
                  None \<Rightarrow> None
                | Some kids \<Rightarrow>
                    Some (TreeNode (obj_id obj) (obj_name obj) (obj_type obj) (Some kids)
                            (obj_variableId obj) (obj_collapsed obj) (obj_level obj)
                            (obj_checked obj) (obj_indeterminate obj) (obj_parentPath obj)))))"

definition depthBound :: "ObjectMap \<Rightarrow> nat" where
  "depthBound nodeMap = foldr max (map (length \<circ> fst) nodeMap) 0"

definition buildTree_js :: "VariableData list \<Rightarrow> Failure + TreeNode list" where
  "buildTree_js vars =
     (case foldE visitVariable_js vars [] of
        Inl e \<Rightarrow> Inl e
      | Inr nodeMap \<Rightarrow>
          (case fold linkNode (forInOrder (map fst nodeMap)) (nodeMap, []) of
             (linked, rootNodes) \<Rightarrow>
               (case those (map (materialize (Suc (depthBound linked)) linked) rootNodes) of
                  None \<Rightarrow> Inl NotAForest
                | Some forest \<Rightarrow> Inr forest)))"

text \<open>The forest that the scenario expects, with the parent paths of \<^verbatim>\<open>code.js\<close>.\<close>

definition scenarioForest :: "TreeNode list" where
  "scenarioForest =
     [TreeNode ''color'' ''color'' Group (Some
        [TreeNode ''color/bg'' ''bg'' Group (Some
           [TreeNode ''color/bg/default'' ''default'' Variable None (Some ''v1'')
              True 2 False False (Some ''color/bg''),
            TreeNode ''color/bg/hover'' ''hover'' Variable None (Some ''v2'')
              True 2 False False (Some ''color/bg'')])
           None True 1 False False (Some ''color''),
         TreeNode ''color/fg'' ''fg'' Variable None (Some ''v3'') True 1 False False
           (Some ''color'')])
        None True 0 False False None]"

section \<open>Properties of the migration engine\<close>

subsection \<open>Mode compatibility\<close>

declare compareNames.simps [simp del]
declare fillMapping.simps [simp del]

lemma compareNames_None:
  "compareNames i src tgt = None \<longleftrightarrow>
     (\<forall>j. i \<le> j \<and> j < length src \<longrightarrow> mode_name (src ! j) = mode_name (tgt ! j))"
proof (induction i src tgt rule: compareNames.induct)
  case (1 i src tgt)
  show ?case
  proof (cases "i < length src")
    case False
    then show ?thesis by (auto simp: compareNames.simps[of i])
  next
    case True
    show ?thesis
    proof (cases "mode_name (src ! i) = mode_name (tgt ! i)")
      case False
      with True show ?thesis by (auto simp: compareNames.simps[of i])
    next
      case eq: True
      have "(\<forall>j. i \<le> j \<and> j < length src \<longrightarrow> mode_name (src ! j) = mode_name (tgt ! j)) \<longleftrightarrow>
            (\<forall>j. i + 1 \<le> j \<and> j < length src \<longrightarrow> mode_name (src ! j) = mode_name (tgt ! j))"
      proof (intro iffI allI impI)
        fix j
        assume "\<forall>j. i \<le> j \<and> j < length src \<longrightarrow> mode_name (src ! j) = mode_name (tgt ! j)"
          and "i + 1 \<le> j \<and> j < length src"
        then show "mode_name (src ! j) = mode_name (tgt ! j)" by simp
      next
        fix j
        assume H: "\<forall>j. i + 1 \<le> j \<and> j < length src \<longrightarrow> mode_name (src ! j) = mode_name (tgt ! j)"
          and j: "i \<le> j \<and> j < length src"
        show "mode_name (src ! j) = mode_name (tgt ! j)"
        proof (cases "j = i")
          case True
          with eq show ?thesis by simp
        next
          case False
          with j have "i + 1 \<le> j \<and> j < length src" by simp
          with H show ?thesis by blast
        qed
      qed
      with 1[OF True] eq True show ?thesis by (simp add: compareNames.simps[of i])
    qed
  qed
qed

lemma modeCompatible_iff:
  "modeCompatible source target \<longleftrightarrow>
     length (modes source) = length (modes target) \<and>
     (\<forall>i < length (modes source). mode_name (modes source ! i) = mode_name (modes target ! i))"
  by (simp add: modeCompatible_def list_all2_conv_all_nth)

lemma validate_Incompatible_iff:
  "(\<exists>e. validateModeCompatibility source target = Incompatible e) \<longleftrightarrow>
     \<not> modeCompatible source target"
proof (cases "length (modes source) = length (modes target)")
  case False
  then show ?thesis by (simp add: validateModeCompatibility_def modeCompatible_iff Let_def)
next
  case True
  show ?thesis
  proof (cases "compareNames 0 (modes source) (modes target)")
    case None
    with True show ?thesis
      using compareNames_None[of 0 "modes source" "modes target"]
      by (simp add: validateModeCompatibility_def modeCompatible_iff Let_def)
  next
    case (Some e)
    with True show ?thesis
      using compareNames_None[of 0 "modes source" "modes target"]
      by (simp add: validateModeCompatibility_def modeCompatible_iff Let_def)
  qed
qed

lemma fillMapping_other:
  "(\<forall>j. i \<le> j \<and> j < length src \<longrightarrow> modeId (src ! j) \<noteq> k) \<Longrightarrow>
   fillMapping i src tgt m k = m k"
proof (induction i src tgt m rule: fillMapping.induct)
  case (1 i src tgt m)
  show ?case
  proof (cases "i < length src")
    case False
    then show ?thesis by (simp add: fillMapping.simps[of i])
  next
    case True
    have "fillMapping (i + 1) src tgt (m(modeId (src ! i) \<mapsto> modeId (tgt ! i))) k
         = (m(modeId (src ! i) \<mapsto> modeId (tgt ! i))) k"
      using 1(2) by (intro 1(1)[OF True]) auto
    moreover have "modeId (src ! i) \<noteq> k" using 1(2) True by auto
    ultimately show ?thesis using True by (simp add: fillMapping.simps[of i])
  qed
qed

lemma fillMapping_nth:
  "distinct (map modeId src) \<Longrightarrow> i \<le> j \<Longrightarrow> j < length src \<Longrightarrow>
   fillMapping i src tgt m (modeId (src ! j)) = Some (modeId (tgt ! j))"
proof (induction i src tgt m rule: fillMapping.induct)
  case (1 i src tgt m)
  have lt: "i < length src" using 1(3,4) by simp
  show ?case
  proof (cases "i = j")
    case True
    have "\<forall>j'. i + 1 \<le> j' \<and> j' < length src \<longrightarrow> modeId (src ! j') \<noteq> modeId (src ! j)"
      using 1(2) True 1(4) by (auto simp: distinct_conv_nth)
    from fillMapping_other[OF this]
    have "fillMapping (i + 1) src tgt (m(modeId (src ! i) \<mapsto> modeId (tgt ! i))) (modeId (src ! j))
        = (m(modeId (src ! i) \<mapsto> modeId (tgt ! i))) (modeId (src ! j))" .
    moreover have "fillMapping i src tgt m
        = fillMapping (i + 1) src tgt (m(modeId (src ! i) \<mapsto> modeId (tgt ! i)))"
      using lt by (subst fillMapping.simps) simp
    ultimately show ?thesis using True by simp
  next
    case False
    with 1(3) have "i + 1 \<le> j" by simp
    from 1(1)[OF lt 1(2) this 1(4)]
    have "fillMapping (i + 1) src tgt (m(modeId (src ! i) \<mapsto> modeId (tgt ! i))) (modeId (src ! j))
        = Some (modeId (tgt ! j))" .
    moreover have "fillMapping i src tgt m
        = fillMapping (i + 1) src tgt (m(modeId (src ! i) \<mapsto> modeId (tgt ! i)))"
      using lt by (subst fillMapping.simps) simp
    ultimately show ?thesis by simp
  qed
qed

lemma fillMapping_dom:
  "dom (fillMapping i src tgt m) = dom m \<union> modeId ` set (drop i src)"
proof (induction i src tgt m rule: fillMapping.induct)
  case (1 i src tgt m)
  show ?case
  proof (cases "i < length src")
    case False
    then show ?thesis by (simp add: fillMapping.simps[of i])
  next
    case True
    have d: "drop i src = src ! i # drop (i + 1) src"
      using True by (simp add: Cons_nth_drop_Suc)
    have "dom (fillMapping i src tgt m)
        = dom (fillMapping (i + 1) src tgt (m(modeId (src ! i) \<mapsto> modeId (tgt ! i))))"
      using True by (subst fillMapping.simps) simp
    also have "\<dots> = dom (m(modeId (src ! i) \<mapsto> modeId (tgt ! i)))
        \<union> modeId ` set (drop (i + 1) src)"
      by (rule 1[OF True])
    also have "\<dots> = dom m \<union> modeId ` set (drop i src)"
      unfolding d by auto
    finally show ?thesis .
  qed
qed


lemma fillMapping_inj:
  assumes "distinct (map modeId src)" "distinct (map modeId tgt)" "length src = length tgt"
  shows "inj_on (fillMapping 0 src tgt Map.empty) (dom (fillMapping 0 src tgt Map.empty))"
proof (rule inj_onI)
  fix a b
  assume a: "a \<in> dom (fillMapping 0 src tgt Map.empty)"
    and b: "b \<in> dom (fillMapping 0 src tgt Map.empty)"
    and eq: "fillMapping 0 src tgt Map.empty a = fillMapping 0 src tgt Map.empty b"
  have nth: "\<exists>i < length src. k = modeId (src ! i)"
    if "k \<in> dom (fillMapping 0 src tgt Map.empty)" for k
  proof -
    from that obtain x where "x \<in> set src" "k = modeId x"
      unfolding fillMapping_dom by auto
    then obtain i where "i < length src" "src ! i = x"
      unfolding in_set_conv_nth by blast
    with \<open>k = modeId x\<close> show ?thesis by blast
  qed
  from nth[OF a] obtain i where i: "i < length src" "a = modeId (src ! i)" by blast
  from nth[OF b] obtain j where j: "j < length src" "b = modeId (src ! j)" by blast
  have "fillMapping 0 src tgt Map.empty a = Some (modeId (tgt ! i))"
    unfolding i(2) using assms(1) i(1) by (intro fillMapping_nth) simp_all
  moreover have "fillMapping 0 src tgt Map.empty b = Some (modeId (tgt ! j))"
    unfolding j(2) using assms(1) j(1) by (intro fillMapping_nth) simp_all
  ultimately have "modeId (tgt ! i) = modeId (tgt ! j)"
    using eq by simp
  then have "map modeId tgt ! i = map modeId tgt ! j"
    using assms(3) i(1) j(1) by simp
  moreover have "i < length (map modeId tgt)" "j < length (map modeId tgt)"
    using assms(3) i(1) j(1) by simp_all
  ultimately have "i = j"
    using nth_eq_iff_index_eq[OF assms(2)] by blast
  with i j show "a = b" by simp
qed


text \<open>
  C6. The validation answers Incompatible exactly when the numbers of modes
  differ or the names differ at some position; otherwise it answers Compatible
  with a mapping whose keys are the source mode ids. Mode ids being distinct
  within the source collection, the mapping sends the mode id at each position
  of the source to the mode id at that position of the target, and it is
  one-to-one when the target's mode ids are distinct too.
\<close>

theorem validateModeCompatibility_correct:
  "((\<exists>e. validateModeCompatibility source target = Incompatible e) \<longleftrightarrow>
      (length (modes source) \<noteq> length (modes target) \<or>
       (\<exists>i. i < length (modes source) \<and> i < length (modes target) \<and>
            mode_name (modes source ! i) \<noteq> mode_name (modes target ! i)))) \<and>
   ((\<forall>e. validateModeCompatibility source target \<noteq> Incompatible e) \<longrightarrow>
      (\<exists>m. validateModeCompatibility source target = Compatible m \<and>
           dom m = modeId ` set (modes source) \<and>
           (distinct (map modeId (modes source)) \<longrightarrow>
              (\<forall>i < length (modes source).
                 m (modeId (modes source ! i)) = Some (modeId (modes target ! i)))) \<and>
           (distinct (map modeId (modes source)) \<and> distinct (map modeId (modes target)) \<longrightarrow>
              inj_on m (dom m))))"
proof
  show "(\<exists>e. validateModeCompatibility source target = Incompatible e) \<longleftrightarrow>
      (length (modes source) \<noteq> length (modes target) \<or>
       (\<exists>i. i < length (modes source) \<and> i < length (modes target) \<and>
            mode_name (modes source ! i) \<noteq> mode_name (modes target ! i)))"
    unfolding validate_Incompatible_iff modeCompatible_iff by auto
  show "(\<forall>e. validateModeCompatibility source target \<noteq> Incompatible e) \<longrightarrow>
      (\<exists>m. validateModeCompatibility source target = Compatible m \<and>
           dom m = modeId ` set (modes source) \<and>
           (distinct (map modeId (modes source)) \<longrightarrow>
              (\<forall>i < length (modes source).
                 m (modeId (modes source ! i)) = Some (modeId (modes target ! i)))) \<and>
           (distinct (map modeId (modes source)) \<and> distinct (map modeId (modes target)) \<longrightarrow>
              inj_on m (dom m)))"
  proof
    assume "\<forall>e. validateModeCompatibility source target \<noteq> Incompatible e"
    then have c: "modeCompatible source target"
      using validate_Incompatible_iff by blast
    then have len: "length (modes source) = length (modes target)"
      by (simp add: modeCompatible_iff)
    define m where "m = fillMapping 0 (modes source) (modes target) Map.empty"
    have "compareNames 0 (modes source) (modes target) = None"
      using c by (simp add: compareNames_None modeCompatible_iff)
    with len have v: "validateModeCompatibility source target = Compatible m"
      by (simp add: validateModeCompatibility_def Let_def m_def)
    have d: "dom m = modeId ` set (modes source)"
      by (simp add: m_def fillMapping_dom)
    have n: "\<forall>i < length (modes source).
        m (modeId (modes source ! i)) = Some (modeId (modes target ! i))"
      if "distinct (map modeId (modes source))"
      using that by (simp add: m_def fillMapping_nth)
    have i: "inj_on m (dom m)"
      if "distinct (map modeId (modes source)) \<and> distinct (map modeId (modes target))"
      unfolding m_def using that len by (intro fillMapping_inj) simp_all
    from v d n i show "\<exists>m. validateModeCompatibility source target = Compatible m \<and>
           dom m = modeId ` set (modes source) \<and>
           (distinct (map modeId (modes source)) \<longrightarrow>
              (\<forall>i < length (modes source).
                 m (modeId (modes source ! i)) = Some (modeId (modes target ! i)))) \<and>
           (distinct (map modeId (modes source)) \<and> distinct (map modeId (modes target)) \<longrightarrow>
              inj_on m (dom m))"
      by blast
  qed
qed

text \<open>
  A source with the modes Light and Dark against a target with the mode Light
  alone is incompatible; against a target with the modes Light and Dark the
  mapping pairs the mode ids by position.
\<close>

theorem validateModeCompatibility_correct_witness:
  "validateModeCompatibility (lightDark ''A'' ''1'') (lightOnly ''B'' ''2'')
     = Incompatible (CountMismatch 2 1) \<and>
   distinct (map modeId (modes (lightDark ''A'' ''1''))) \<and>
   distinct (map modeId (modes (lightDark ''B'' ''2''))) \<and>
   (\<exists>m. validateModeCompatibility (lightDark ''A'' ''1'') (lightDark ''B'' ''2'') = Compatible m \<and>
        m ''1:0'' = Some ''2:0'' \<and> m ''1:1'' = Some ''2:1'' \<and> inj_on m (dom m))"
proof -
  let ?src = "lightDark ''A'' ''1''" and ?tgt = "lightDark ''B'' ''2''"
  have count: "validateModeCompatibility ?src (lightOnly ''B'' ''2'')
      = Incompatible (CountMismatch 2 1)"
    by (simp add: validateModeCompatibility_def lightDark_def lightOnly_def Let_def)
  have names: "compareNames 0 (modes ?src) (modes ?tgt) = None"
    by (simp add: compareNames.simps lightDark_def)
  have ok: "\<forall>e. validateModeCompatibility ?src ?tgt \<noteq> Incompatible e"
    by (simp add: validateModeCompatibility_def Let_def names) (simp add: lightDark_def)
  have ds: "distinct (map modeId (modes ?src))" and dt: "distinct (map modeId (modes ?tgt))"
    by (simp_all add: lightDark_def)
  from validateModeCompatibility_correct[of ?src ?tgt] ok ds dt
  obtain m where m: "validateModeCompatibility ?src ?tgt = Compatible m"
    and nth: "\<forall>i < length (modes ?src). m (modeId (modes ?src ! i)) = Some (modeId (modes ?tgt ! i))"
    and inj: "inj_on m (dom m)"
    by blast
  have len: "length (modes ?src) = 2"
    by (simp add: lightDark_def)
  have "m (modeId (modes ?src ! 0)) = Some (modeId (modes ?tgt ! 0))"
    and "m (modeId (modes ?src ! 1)) = Some (modeId (modes ?tgt ! 1))"
    using nth[rule_format, of 0] nth[rule_format, of 1] len by simp_all
  then have "m ''1:0'' = Some ''2:0''" and "m ''1:1'' = Some ''2:1''"
    by (simp_all add: lightDark_def)
  with count ds dt m inj show ?thesis by blast
qed

subsection \<open>The move of one variable\<close>

lemma swap_js_incompatible:
  assumes "getVariableByIdAsync s vid = Some variable"
    and "getVariableCollectionByIdAsync s src = Some sc"
    and "getVariableCollectionByIdAsync s tgt = Some tc"
    and "\<not> modeCompatible sc tc"
  shows "\<exists>detail. swapVariableCollection_js vid src tgt s = (Inl (IncompatibleModes detail), s)"
proof -
  from assms(4) obtain e where "validateModeCompatibility sc tc = Incompatible e"
    using validate_Incompatible_iff by blast
  with assms(1-3) show ?thesis
    by (simp add: swapVariableCollection_js_def)
qed

lemma find_Some_ex: "(\<exists>y. List.find P xs = Some y) \<longleftrightarrow> (\<exists>x \<in> set xs. P x)"
  using find_None_iff[of P xs] by (cases "List.find P xs") auto

lemma holdsName_js:
  assumes "getVariableCollectionByIdAsync s tgt = Some tc"
    and "holdsName s tc nm" and "nm \<noteq> []"
  shows "\<exists>d. List.find (\<lambda>v. vd_name v = JSString nm) (getVariablesByCollection_js s tgt) = Some d"
proof -
  from assms(2) obtain i w where i: "i \<in> set (variableIds tc)"
    and w: "getVariableByIdAsync s i = Some w" "var_name w = nm"
    by (auto simp: holdsName_def list_ex_iff split: option.splits)
  have "Some w \<in> set (filter (\<lambda>v. case v of None \<Rightarrow> False | Some w \<Rightarrow> var_name w \<noteq> [])
                    (map (getVariableByIdAsync s) (variableIds tc)))"
    using i w assms(3) by (auto simp: image_iff intro!: bexI[of _ i])
  then have "(toVariableData \<circ> the) (Some w) \<in> (toVariableData \<circ> the) `
      set (filter (\<lambda>v. case v of None \<Rightarrow> False | Some w \<Rightarrow> var_name w \<noteq> [])
             (map (getVariableByIdAsync s) (variableIds tc)))"
    by (rule imageI)
  then have "toVariableData w \<in> set (getVariablesByCollection_js s tgt)"
    using assms(1) by (simp add: getVariablesByCollection_js_def Let_def)
  moreover have "vd_name (toVariableData w) = JSString nm"
    using w by (simp add: toVariableData_def)
  ultimately show ?thesis unfolding find_Some_ex by blast
qed

lemma holdsName_ts:
  assumes "getVariableCollectionByIdAsync s tgt = Some tc"
    and "holdsName s tc nm"
  shows "\<exists>d. List.find (\<lambda>v. vd_name v = JSString nm) (getVariablesByCollection s tgt) = Some d"
proof -
  from assms(2) obtain i w where i: "i \<in> set (variableIds tc)"
    and w: "getVariableByIdAsync s i = Some w" "var_name w = nm"
    by (auto simp: holdsName_def list_ex_iff split: option.splits)
  have "w \<in> set (notNull (map (getVariableByIdAsync s) (variableIds tc)))"
    using i w by (auto simp: set_notNull image_iff intro!: bexI[of _ i])
  then have "toVariableData w \<in> set (getVariablesByCollection s tgt)"
    using assms(1) by (simp add: getVariablesByCollection_def)
  moreover have "vd_name (toVariableData w) = JSString nm"
    using w by (simp add: toVariableData_def)
  ultimately show ?thesis unfolding find_Some_ex by blast
qed

lemma swap_js_duplicate:
  assumes "getVariableByIdAsync s vid = Some variable"
    and "getVariableCollectionByIdAsync s src = Some sc"
    and "getVariableCollectionByIdAsync s tgt = Some tc"
    and "modeCompatible sc tc"
    and "var_name variable \<noteq> []"
    and "holdsName s tc (var_name variable)"
  shows "swapVariableCollection_js vid src tgt s
           = (Inl (DuplicateName (var_name variable) (coll_name tc)), s)"
proof -
  from assms(4) obtain m where "validateModeCompatibility sc tc = Compatible m"
    using validate_Incompatible_iff[of sc tc] by (cases "validateModeCompatibility sc tc") auto
  moreover from holdsName_js[OF assms(3,6,5)] obtain d where
    "List.find (\<lambda>v. vd_name v = JSString (var_name variable)) (getVariablesByCollection_js s tgt) = Some d"
    by blast
  ultimately show ?thesis
    using assms(1-3) by (simp add: swapVariableCollection_js_def)
qed

lemma swap_ts_duplicate:
  assumes "getVariableByIdAsync s vid = Some variable"
    and "getVariableCollectionByIdAsync s tgt = Some tc"
    and "holdsName s tc (var_name variable)"
  shows "swapVariableCollection vid tgt s
           = (Inl (DuplicateName (var_name variable) (coll_name tc)), s)"
proof -
  from holdsName_ts[OF assms(2,3)] obtain d where
    "List.find (\<lambda>v. vd_name v = JSString (var_name variable)) (getVariablesByCollection s tgt) = Some d"
    by blast
  then show ?thesis
    using assms(1,2) by (simp add: swapVariableCollection_def)
qed

lemma swap_js_failure_frame:
  "swapVariableCollection_js vid src tgt s = (Inl e, s') \<Longrightarrow> s' = s"
  by (auto simp: swapVariableCollection_js_def Let_def
      split: option.splits Validation.splits prod.splits)

lemma swap_js_duplicate_fails:
  assumes "getVariableByIdAsync s vid = Some variable"
    and "getVariableCollectionByIdAsync s tgt = Some tc"
    and "var_name variable \<noteq> []"
    and "holdsName s tc (var_name variable)"
  shows "\<exists>e. swapVariableCollection_js vid src tgt s = (Inl e, s)"
proof (cases "getVariableCollectionByIdAsync s src")
  case None
  with assms(1) show ?thesis by (simp add: swapVariableCollection_js_def)
next
  case (Some sc)
  show ?thesis
  proof (cases "modeCompatible sc tc")
    case True
    from swap_js_duplicate[OF assms(1) Some assms(2) True assms(3,4)] show ?thesis by blast
  next
    case False
    from swap_js_incompatible[OF assms(1) Some assms(2) False] show ?thesis by blast
  qed
qed




text \<open>
  C3, the claim as stated, fails in \<^verbatim>\<open>code.js\<close> where the modes are validated
  before the names are compared: \<open>C\<close> holds a variable named \<open>color/fg\<close>, and
  moving \<open>color/fg\<close> from \<open>A\<close> to \<open>C\<close> fails with the error of incompatible modes,
  not with the error of a duplicate name.
\<close>

theorem swapVariableCollection_js_duplicate_counterexample:
  "getVariableByIdAsync exampleStore ''v2'' = Some var2 \<and>
   getVariableCollectionByIdAsync exampleStore ''C'' = Some collC \<and>
   holdsName exampleStore collC (var_name var2) \<and>
   swapVariableCollection_js ''v2'' ''A'' ''C'' exampleStore
     = (Inl (IncompatibleModes (CountMismatch 2 1)), exampleStore)"
  by code_simp

text \<open>
  C3, amended. When the target collection holds a variable with the name of the
  variable to move: in \<^verbatim>\<open>code.js\<close> the move fails and the store is the one it
  was, and the error is the duplicate name when the source collection is found,
  the collections are mode-compatible and the name is not empty; in
  \<^verbatim>\<open>variablesService.ts\<close> the move fails with the duplicate name and the store
  is the one it was.
\<close>

theorem swapVariableCollection_duplicate:
  assumes "getVariableByIdAsync s vid = Some variable"
    and "getVariableCollectionByIdAsync s tgt = Some tc"
    and "holdsName s tc (var_name variable)"
  shows "(var_name variable \<noteq> [] \<longrightarrow>
            (\<exists>e. swapVariableCollection_js vid src tgt s = (Inl e, s))) \<and>
         (var_name variable \<noteq> [] \<and>
          (\<exists>sc. getVariableCollectionByIdAsync s src = Some sc \<and> modeCompatible sc tc) \<longrightarrow>
            swapVariableCollection_js vid src tgt s
              = (Inl (DuplicateName (var_name variable) (coll_name tc)), s)) \<and>
         swapVariableCollection vid tgt s
           = (Inl (DuplicateName (var_name variable) (coll_name tc)), s)"
  using swap_js_duplicate_fails[OF assms(1,2) _ assms(3)]
    swap_js_duplicate[OF assms(1) _ assms(2) _ _ assms(3)]
    swap_ts_duplicate[OF assms]
  by blast

text \<open>
  Moving \<open>color/fg\<close> from \<open>A\<close> to \<open>B\<close>, which has the same modes and a variable
  named \<open>color/fg\<close>, fails with the duplicate name in both variants.
\<close>

theorem swapVariableCollection_duplicate_witness:
  "getVariableByIdAsync exampleStore ''v2'' = Some var2 \<and>
   getVariableCollectionByIdAsync exampleStore ''B'' = Some collB \<and>
   holdsName exampleStore collB (var_name var2) \<and>
   var_name var2 \<noteq> [] \<and>
   getVariableCollectionByIdAsync exampleStore ''A'' = Some collA \<and>
   modeCompatible collA collB \<and>
   swapVariableCollection_js ''v2'' ''A'' ''B'' exampleStore
     = (Inl (DuplicateName ''color/fg'' ''B''), exampleStore) \<and>
   swapVariableCollection ''v2'' ''B'' exampleStore
     = (Inl (DuplicateName ''color/fg'' ''B''), exampleStore)"
proof -
  have v: "getVariableByIdAsync exampleStore ''v2'' = Some var2" by code_simp
  have b: "getVariableCollectionByIdAsync exampleStore ''B'' = Some collB" by code_simp
  have h: "holdsName exampleStore collB (var_name var2)" by code_simp
  have n: "var_name var2 \<noteq> []" by code_simp
  have a: "getVariableCollectionByIdAsync exampleStore ''A'' = Some collA" by code_simp
  have m: "modeCompatible collA collB" by code_simp
  have nm: "var_name var2 = ''color/fg''" "coll_name collB = ''B''" by code_simp+
  from swapVariableCollection_duplicate[OF v b h, of "''A''"] n a m
  have "swapVariableCollection_js ''v2'' ''A'' ''B'' exampleStore
     = (Inl (DuplicateName (var_name var2) (coll_name collB)), exampleStore)"
    and "swapVariableCollection ''v2'' ''B'' exampleStore
     = (Inl (DuplicateName (var_name var2) (coll_name collB)), exampleStore)"
    by blast+
  with v b h n a m show ?thesis unfolding nm by (intro conjI)
qed

subsection \<open>The batch\<close>

declare processNext.simps [simp del]

lemma attempts_ids: "map fst (attempts step ids s) = ids"
  by (induction ids arbitrary: s) auto

lemma outcome_partition:
  "mset (map fst (succeeded xs)) + mset (map fst (failures xs)) = mset (map fst xs)"
  by (induction xs rule: succeeded.induct) auto

lemma succeeded_subset: "set (map fst (succeeded xs)) \<subseteq> set (map fst xs)"
  by (induction xs rule: succeeded.induct) auto

lemma failures_subset: "set (map fst (failures xs)) \<subseteq> set (map fst xs)"
  by (induction xs rule: failures.induct) auto

lemma outcome_distinct:
  "distinct (map fst xs) \<Longrightarrow>
   distinct (map fst (succeeded xs)) \<and> distinct (map fst (failures xs)) \<and>
   set (map fst (succeeded xs)) \<inter> set (map fst (failures xs)) = {}"
proof (induction xs rule: succeeded.induct)
  case 1
  show ?case by simp
next
  case (2 varId r rest)
  then show ?case
    using succeeded_subset[of rest] failures_subset[of rest] by auto
next
  case (3 varId e rest)
  then show ?case
    using succeeded_subset[of rest] failures_subset[of rest] by auto
qed

lemma processNext_attempts:
  "processNext ids src tgt index results s =
     (\<lparr>success = success results @ succeeded (attempts (step_js src tgt) (drop index ids) s),
       failed = failed results @ failures (attempts (step_js src tgt) (drop index ids) s)\<rparr>,
      finalStore (step_js src tgt) (drop index ids) s)"
proof (induction ids src tgt index results s rule: processNext.induct)
  case (1 ids src tgt index results s)
  show ?case
  proof (cases "index \<ge> length ids")
    case True
    then show ?thesis by (simp add: processNext.simps[of ids src tgt index])
  next
    case False
    then have d: "drop index ids = ids ! index # drop (index + 1) ids"
      by (simp add: Cons_nth_drop_Suc)
    obtain r s' where sw: "swapVariableCollection_js (ids ! index) src tgt s = (r, s')"
      by (cases "swapVariableCollection_js (ids ! index) src tgt s")
    show ?thesis
    proof (cases r)
      case (Inr nm)
      from 1(2)[OF False refl sw[unfolded Inr, symmetric] refl] sw Inr False
      show ?thesis
        unfolding d by (simp add: processNext.simps[of ids src tgt index] step_js_def)
    next
      case (Inl e)
      from 1(1)[OF False refl sw[unfolded Inl, symmetric] refl] sw Inl False
      show ?thesis
        unfolding d by (simp add: processNext.simps[of ids src tgt index] step_js_def)
    qed
  qed
qed

lemma batchLoop_attempts:
  "batchLoop ids tgt results s =
     (\<lparr>success = success results @ map fst (succeeded (attempts (step_ts tgt) ids s)),
       failed = failed results @ failures (attempts (step_ts tgt) ids s)\<rparr>,
      finalStore (step_ts tgt) ids s)"
proof (induction ids arbitrary: results s)
  case Nil
  show ?case by simp
next
  case (Cons varId rest)
  obtain r s' where sw: "swapVariableCollection varId tgt s = (r, s')"
    by (cases "swapVariableCollection varId tgt s")
  show ?case
    using sw Cons by (cases r) (simp_all add: step_ts_def)
qed


text \<open>
  C4. Both batches return, for every list of ids: the result of the batch is the
  split of the sequential attempts, whose ids are the input in its order, one
  attempt for each position, each in the store left by the attempts before it,
  whatever the outcome of an attempt was. The ids of the two result sequences
  together are the input as a multiset; for distinct ids no id is in both
  sequences or twice in one.
\<close>

theorem batchSwapVariables_partition:
  "batchSwapVariables_js ids src tgt s =
     (\<lparr>success = succeeded (attempts (step_js src tgt) ids s),
       failed = failures (attempts (step_js src tgt) ids s)\<rparr>,
      finalStore (step_js src tgt) ids s) \<and>
   batchSwapVariables ids tgt s =
     (\<lparr>success = map fst (succeeded (attempts (step_ts tgt) ids s)),
       failed = failures (attempts (step_ts tgt) ids s)\<rparr>,
      finalStore (step_ts tgt) ids s) \<and>
   map fst (attempts (step_js src tgt) ids s) = ids \<and>
   map fst (attempts (step_ts tgt) ids s) = ids \<and>
   mset (map fst (success (fst (batchSwapVariables_js ids src tgt s)))) +
     mset (map fst (failed (fst (batchSwapVariables_js ids src tgt s)))) = mset ids \<and>
   mset (success (fst (batchSwapVariables ids tgt s))) +
     mset (map fst (failed (fst (batchSwapVariables ids tgt s)))) = mset ids \<and>
   (distinct ids \<longrightarrow>
      distinct (map fst (success (fst (batchSwapVariables_js ids src tgt s)))) \<and>
      distinct (map fst (failed (fst (batchSwapVariables_js ids src tgt s)))) \<and>
      set (map fst (success (fst (batchSwapVariables_js ids src tgt s)))) \<inter>
        set (map fst (failed (fst (batchSwapVariables_js ids src tgt s)))) = {} \<and>
      distinct (success (fst (batchSwapVariables ids tgt s))) \<and>
      distinct (map fst (failed (fst (batchSwapVariables ids tgt s)))) \<and>
      set (success (fst (batchSwapVariables ids tgt s))) \<inter>
        set (map fst (failed (fst (batchSwapVariables ids tgt s)))) = {})"
proof -
  have js: "batchSwapVariables_js ids src tgt s =
     (\<lparr>success = succeeded (attempts (step_js src tgt) ids s),
       failed = failures (attempts (step_js src tgt) ids s)\<rparr>,
      finalStore (step_js src tgt) ids s)"
    by (simp add: batchSwapVariables_js_def processNext_attempts)
  have ts: "batchSwapVariables ids tgt s =
     (\<lparr>success = map fst (succeeded (attempts (step_ts tgt) ids s)),
       failed = failures (attempts (step_ts tgt) ids s)\<rparr>,
      finalStore (step_ts tgt) ids s)"
    by (simp add: batchSwapVariables_def batchLoop_attempts)
  have ijs: "map fst (attempts (step_js src tgt) ids s) = ids"
    and its: "map fst (attempts (step_ts tgt) ids s) = ids"
    by (rule attempts_ids)+
  have mjs: "mset (map fst (success (fst (batchSwapVariables_js ids src tgt s)))) +
     mset (map fst (failed (fst (batchSwapVariables_js ids src tgt s)))) = mset ids"
    unfolding js using outcome_partition[of "attempts (step_js src tgt) ids s"] ijs by simp
  have mts: "mset (success (fst (batchSwapVariables ids tgt s))) +
     mset (map fst (failed (fst (batchSwapVariables ids tgt s)))) = mset ids"
    unfolding ts using outcome_partition[of "attempts (step_ts tgt) ids s"] its by simp
  have d: "distinct (map fst (success (fst (batchSwapVariables_js ids src tgt s)))) \<and>
      distinct (map fst (failed (fst (batchSwapVariables_js ids src tgt s)))) \<and>
      set (map fst (success (fst (batchSwapVariables_js ids src tgt s)))) \<inter>
        set (map fst (failed (fst (batchSwapVariables_js ids src tgt s)))) = {} \<and>
      distinct (success (fst (batchSwapVariables ids tgt s))) \<and>
      distinct (map fst (failed (fst (batchSwapVariables ids tgt s)))) \<and>
      set (success (fst (batchSwapVariables ids tgt s))) \<inter>
        set (map fst (failed (fst (batchSwapVariables ids tgt s)))) = {}"
    if "distinct ids"
    unfolding js ts
    using outcome_distinct[of "attempts (step_js src tgt) ids s"]
      outcome_distinct[of "attempts (step_ts tgt) ids s"] ijs its that
    by simp
  from js ts ijs its mjs mts d show ?thesis by blast
qed

text \<open>
  A batch of three ids from \<open>A\<close> to \<open>B\<close>: \<open>color/bg\<close> moves, \<open>color/fg\<close> fails on
  the duplicate name, and the id \<open>zz\<close>, attempted after the failure, is not
  found.
\<close>

theorem batchSwapVariables_partition_witness:
  "distinct [''v1'', ''v2'', ''zz''] \<and>
   fst (batchSwapVariables_js [''v1'', ''v2'', ''zz''] ''A'' ''B'' exampleStore) =
     \<lparr>success = [(''v1'', ''color/bg'')],
      failed = [(''v2'', DuplicateName ''color/fg'' ''B''), (''zz'', VariableNotFound)]\<rparr> \<and>
   fst (batchSwapVariables [''v1'', ''v2'', ''zz''] ''B'' exampleStore) =
     \<lparr>success = [''v1''],
      failed = [(''v2'', DuplicateName ''color/fg'' ''B''), (''zz'', VariableNotFound)]\<rparr> \<and>
   set (map fst (success (fst (batchSwapVariables_js [''v1'', ''v2'', ''zz''] ''A'' ''B'' exampleStore))))
     \<inter> set (map fst (failed (fst (batchSwapVariables_js [''v1'', ''v2'', ''zz''] ''A'' ''B'' exampleStore))))
     = {} \<and>
   map fst (attempts (step_js ''A'' ''B'') [''v1'', ''v2'', ''zz''] exampleStore)
     = [''v1'', ''v2'', ''zz'']"
proof -
  have d: "distinct [''v1'', ''v2'', ''zz'']" by simp
  have js: "fst (batchSwapVariables_js [''v1'', ''v2'', ''zz''] ''A'' ''B'' exampleStore) =
     \<lparr>success = [(''v1'', ''color/bg'')],
      failed = [(''v2'', DuplicateName ''color/fg'' ''B''), (''zz'', VariableNotFound)]\<rparr>"
    by code_simp
  have ts: "fst (batchSwapVariables [''v1'', ''v2'', ''zz''] ''B'' exampleStore) =
     \<lparr>success = [''v1''],
      failed = [(''v2'', DuplicateName ''color/fg'' ''B''), (''zz'', VariableNotFound)]\<rparr>"
    by code_simp
  note t = batchSwapVariables_partition[of "[''v1'', ''v2'', ''zz'']" "''A''" "''B''" exampleStore]
  from t d have "set (map fst (success (fst (batchSwapVariables_js [''v1'', ''v2'', ''zz''] ''A'' ''B'' exampleStore))))
     \<inter> set (map fst (failed (fst (batchSwapVariables_js [''v1'', ''v2'', ''zz''] ''A'' ''B'' exampleStore))))
     = {}"
    by blast
  moreover from t have "map fst (attempts (step_js ''A'' ''B'') [''v1'', ''v2'', ''zz''] exampleStore)
     = [''v1'', ''v2'', ''zz'']"
    by blast
  ultimately show ?thesis using d js ts by (intro conjI)
qed

subsection \<open>The values that the service module transfers\<close>

lemma le_foldr_max: "x \<in> set xs \<Longrightarrow> x \<le> foldr max xs (0::nat)"
  by (induction xs) auto

lemma freshId_fresh: "v \<in> set (variables s) \<Longrightarrow> var_id v \<noteq> freshId s"
proof
  assume v: "v \<in> set (variables s)" and eq: "var_id v = freshId s"
  from v have "length (var_id v) \<le> foldr max (map (length \<circ> var_id) (variables s)) 0"
    by (intro le_foldr_max) auto
  moreover have "length (freshId s) = Suc (foldr max (map (length \<circ> var_id) (variables s)) 0)"
    by (simp add: freshId_def)
  ultimately show False using eq by simp
qed

lemma find_new:
  fixes vs :: "Variable list" and upd :: "Variable \<Rightarrow> Variable"
  assumes "\<And>v. v \<in> set vs \<Longrightarrow> var_id v \<noteq> newId"
    and "\<And>v. var_id (upd v) = var_id v"
    and "var_id new = newId" and "newId \<noteq> vid"
  shows "List.find (\<lambda>v. var_id v = newId)
           (filter (\<lambda>v. var_id v \<noteq> vid) (map upd (vs @ [new]))) = Some (upd new)"
  using assms(1)
proof (induction vs)
  case Nil
  show ?case using assms(2-4) by simp
next
  case (Cons a vs)
  then show ?case using assms(2) by simp
qed

lemma find_removed:
  fixes vs :: "Variable list"
  shows "List.find (\<lambda>v. var_id v = vid) (filter (\<lambda>v. var_id v \<noteq> vid) vs) = None"
  by (simp add: find_None_iff)

lemma find_SomeD: "List.find P xs = Some x \<Longrightarrow> x \<in> set xs \<and> P x"
  by (induction xs) (auto split: if_splits)

lemma createVariable_simps:
  "fst (createVariable nm c ty s) = freshId s"
  "variables (snd (createVariable nm c ty s)) =
     variables s @ [\<lparr>var_id = freshId s, var_name = nm, resolvedType = ty,
                      variableCollectionId = c, valuesByMode = []\<rparr>]"
  by (simp_all add: createVariable_def Let_def)

lemma variables_setValueForMode:
  "variables (setValueForMode i m val s) =
     map (\<lambda>v. if var_id v = i then v\<lparr>valuesByMode := assign m val (valuesByMode v)\<rparr> else v)
       (variables s)"
  by (simp add: setValueForMode_def)

lemma variables_remove_variable:
  "variables (remove_variable vid s) = filter (\<lambda>v. var_id v \<noteq> vid) (variables s)"
  by (simp add: remove_variable_def)

lemma swap_success_store:
  assumes "swapVariableCollection vid tgt s = (Inr (), s')"
  shows "\<exists>variable targetCollection targetMode others.
      getVariableByIdAsync s vid = Some variable \<and>
      getVariableCollectionByIdAsync s tgt = Some targetCollection \<and>
      modes targetCollection = targetMode # others \<and>
      s' = remove_variable vid
             (let s1 = snd (createVariable (var_name variable) tgt (resolvedType variable) s)
              in case valuesByMode variable of
                   [] \<Rightarrow> s1
                 | (sourceModeId, val) # rest \<Rightarrow>
                     setValueForMode (freshId s) (modeId targetMode) val s1)"
proof -
  from assms obtain variable where v: "getVariableByIdAsync s vid = Some variable"
    by (cases "getVariableByIdAsync s vid") (auto simp: swapVariableCollection_def)
  from assms v obtain tc where tc: "getVariableCollectionByIdAsync s tgt = Some tc"
    by (cases "getVariableCollectionByIdAsync s tgt") (auto simp: swapVariableCollection_def)
  from assms v tc have nodup:
    "List.find (\<lambda>d. vd_name d = JSString (var_name variable)) (getVariablesByCollection s tgt) = None"
    by (cases "List.find (\<lambda>d. vd_name d = JSString (var_name variable))
                 (getVariablesByCollection s tgt)")
      (auto simp: swapVariableCollection_def)
  from assms v tc nodup obtain targetMode others where m: "modes tc = targetMode # others"
    by (cases "modes tc") (auto simp: swapVariableCollection_def Let_def split: prod.splits)
  have vid: "var_id variable = vid"
    using find_SomeD[OF v[unfolded getVariableByIdAsync_def]] by simp
  define s1 where "s1 = snd (createVariable (var_name variable) tgt (resolvedType variable) s)"
  have c: "createVariable (var_name variable) tgt (resolvedType variable) s = (freshId s, s1)"
    by (simp add: s1_def prod_eq_iff createVariable_simps)
  have "s' = remove_variable vid
             (case valuesByMode variable of
                   [] \<Rightarrow> s1
                 | (sourceModeId, val) # rest \<Rightarrow>
                     setValueForMode (freshId s) (modeId targetMode) val s1)"
    using assms v tc nodup m vid c
    by (cases "valuesByMode variable") (auto simp: swapVariableCollection_def Let_def)
  with v tc m show ?thesis unfolding s1_def Let_def by blast
qed

text \<open>
  C10. After a move that succeeds in \<^verbatim>\<open>variablesService.ts\<close>, the new variable
  of the target collection holds at most one value: the first of the source's
  values, under the first mode of the target; and the source variable is gone.
  Nothing is asked of the modes of the two collections.
\<close>

theorem swapVariableCollection_single_value:
  assumes "swapVariableCollection vid tgt s = (Inr (), s')"
  shows "\<exists>variable targetCollection targetMode others.
      getVariableByIdAsync s vid = Some variable \<and>
      getVariableCollectionByIdAsync s tgt = Some targetCollection \<and>
      modes targetCollection = targetMode # others \<and>
      getVariableByIdAsync s' (freshId s) =
        Some \<lparr>var_id = freshId s, var_name = var_name variable,
              resolvedType = resolvedType variable, variableCollectionId = tgt,
              valuesByMode =
                (case valuesByMode variable of
                   [] \<Rightarrow> []
                 | (sourceModeId, val) # rest \<Rightarrow> [(modeId targetMode, val)])\<rparr> \<and>
      getVariableByIdAsync s' vid = None"
proof -
  from swap_success_store[OF assms] obtain variable tc targetMode others where
    v: "getVariableByIdAsync s vid = Some variable"
    and tc: "getVariableCollectionByIdAsync s tgt = Some tc"
    and m: "modes tc = targetMode # others"
    and s': "s' = remove_variable vid
             (let s1 = snd (createVariable (var_name variable) tgt (resolvedType variable) s)
              in case valuesByMode variable of
                   [] \<Rightarrow> s1
                 | (sourceModeId, val) # rest \<Rightarrow>
                     setValueForMode (freshId s) (modeId targetMode) val s1)"
    by blast
  have vin: "variable \<in> set (variables s)" and vid: "var_id variable = vid"
    using find_SomeD[OF v[unfolded getVariableByIdAsync_def]] by simp_all
  have ne: "freshId s \<noteq> vid" using freshId_fresh[OF vin] vid by simp
  define new where "new = \<lparr>var_id = freshId s, var_name = var_name variable,
      resolvedType = resolvedType variable, variableCollectionId = tgt, valuesByMode = []\<rparr>"
  define upd :: "Variable \<Rightarrow> Variable" where "upd =
     (case valuesByMode variable of
        [] \<Rightarrow> (\<lambda>w. w)
      | (sourceModeId, val) # rest \<Rightarrow>
          (\<lambda>w. if var_id w = freshId s
               then w\<lparr>valuesByMode := assign (modeId targetMode) val (valuesByMode w)\<rparr>
               else w))"
  have vars: "variables s' = filter (\<lambda>w. var_id w \<noteq> vid) (map upd (variables s @ [new]))"
    unfolding s' upd_def new_def
    by (cases "valuesByMode variable")
      (auto simp: Let_def variables_remove_variable variables_setValueForMode
        createVariable_simps)
  have id_upd: "var_id (upd w) = var_id w" for w
    by (cases "valuesByMode variable") (auto simp: upd_def)
  have "getVariableByIdAsync s' (freshId s) = Some (upd new)"
    unfolding getVariableByIdAsync_def vars
    using freshId_fresh[of _ s] ne id_upd
    by (intro find_new) (auto simp: new_def)
  moreover have "upd new =
      \<lparr>var_id = freshId s, var_name = var_name variable,
        resolvedType = resolvedType variable, variableCollectionId = tgt,
        valuesByMode =
          (case valuesByMode variable of
             [] \<Rightarrow> []
           | (sourceModeId, val) # rest \<Rightarrow> [(modeId targetMode, val)])\<rparr>"
    by (cases "valuesByMode variable") (auto simp: upd_def new_def)
  moreover have "getVariableByIdAsync s' vid = None"
    unfolding getVariableByIdAsync_def vars by (rule find_removed)
  ultimately show ?thesis using v tc m by simp
qed


text \<open>
  Moving \<open>color/bg\<close>, which has a value for Light and one for Dark, to \<open>C\<close>: the
  new variable has the value of Light alone.
\<close>

theorem swapVariableCollection_single_value_witness:
  "fst (swapVariableCollection ''v1'' ''C'' exampleStore) = Inr () \<and>
   valuesByMode var1 = [(''1:0'', RGBA 1 1 1 1), (''1:1'', RGBA 0 0 0 1)] \<and>
   getVariableByIdAsync (snd (swapVariableCollection ''v1'' ''C'' exampleStore))
       (freshId exampleStore) =
     Some \<lparr>var_id = ''###'', var_name = ''color/bg'', resolvedType = COLOR,
           variableCollectionId = ''C'', valuesByMode = [(''3:0'', RGBA 1 1 1 1)]\<rparr> \<and>
   getVariableByIdAsync (snd (swapVariableCollection ''v1'' ''C'' exampleStore)) ''v1'' = None"
proof -
  have ok: "fst (swapVariableCollection ''v1'' ''C'' exampleStore) = Inr ()" by code_simp
  then have run: "swapVariableCollection ''v1'' ''C'' exampleStore
      = (Inr (), snd (swapVariableCollection ''v1'' ''C'' exampleStore))"
    by (simp add: prod_eq_iff)
  have vals: "valuesByMode var1 = [(''1:0'', RGBA 1 1 1 1), (''1:1'', RGBA 0 0 0 1)]"
    by code_simp
  have new: "getVariableByIdAsync (snd (swapVariableCollection ''v1'' ''C'' exampleStore))
       (freshId exampleStore) =
     Some \<lparr>var_id = ''###'', var_name = ''color/bg'', resolvedType = COLOR,
           variableCollectionId = ''C'', valuesByMode = [(''3:0'', RGBA 1 1 1 1)]\<rparr>"
    by code_simp
  from swapVariableCollection_single_value[OF run]
  have "getVariableByIdAsync (snd (swapVariableCollection ''v1'' ''C'' exampleStore)) ''v1'' = None"
    by blast
  with ok vals new show ?thesis by (intro conjI)
qed

section \<open>Properties of buildTree\<close>

subsection \<open>Names that buildTree of code.js can use\<close>



subsection \<open>The object map of code.js between the passes and after them\<close>




lemma set_assign_subset: "set (assign k v m) \<subseteq> insert (k, v) (set m)"
  by (induction m) auto

definition linked :: "ObjectMap \<Rightarrow> bool" where
  "linked nodeMap \<longleftrightarrow>
     distinct (map fst nodeMap) \<and>
     (\<forall>(k, obj) \<in> set nodeMap.
        trim (obj_name obj) \<noteq> [] \<and>
        (\<forall>pp. obj_parentPath obj = Some pp \<longrightarrow> length pp < length k) \<and>
        (\<forall>cs c. obj_children obj = Some cs \<longrightarrow> c \<in> set cs \<longrightarrow>
           (\<exists>objc. map_of nodeMap c = Some objc \<and> obj_parentPath objc = Some k)))"



















subsection \<open>buildTree of utils/treeBuilder.ts on string names\<close>






text \<open>
  A node that holds no node below it. Every node that \<^verbatim>\<open>buildTree\<close> of
  \<^verbatim>\<open>utils/treeBuilder.ts\<close> puts into a map is such a node, and stays one: nothing
  is ever pushed to a \<^verbatim>\<open>children\<close> array. So the forest that it returns, for
  whatever variables, has no node below its roots.
\<close>

definition childless :: "TreeNode \<Rightarrow> bool" where
  "childless n = (children n = None \<or> children n = Some [])"

lemma visitPart_childless:
  assumes "visitPart vid n (root, lv, cp) ip = Inr (root', lv', cp')"
    and "\<forall>x \<in> snd ` set root. childless x"
  shows "\<forall>x \<in> snd ` set root'. childless x"
proof -
  obtain index part where ip: "ip = (index, part)" by (cases ip)
  define path where "path = cp @ (if cp \<noteq> [] then [SEPARATOR] else []) @ part"
  define node where "node = TreeNode path part (if index = n - 1 then Variable else Group)
                    (if index = n - 1 then None else Some [])
                    (if index = n - 1 then Some vid else None)
                    True index False False None"
  have fn: "childless node" by (simp add: node_def childless_def)
  have "root' = root \<or> root' = Map_set root path node"
    using assms(1) unfolding visitPart_def ip path_def node_def
    by (cases lv; cases "index = n - 1")
       (auto simp: Let_def simp del: One_nat_def split: option.splits if_splits)
  then show ?thesis
    using assms(2) fn set_assign_subset[of path node root] by (auto simp: Map_set_def)
qed

lemma foldE_visitPart_childless:
  "foldE (visitPart vid n) ips (root, lv, cp) = Inr (root', lv', cp') \<Longrightarrow>
   \<forall>x \<in> snd ` set root. childless x \<Longrightarrow> \<forall>x \<in> snd ` set root'. childless x"
proof (induction ips arbitrary: root lv cp)
  case Nil
  then show ?case by simp
next
  case (Cons ip ips)
  from Cons(2) obtain st where st: "visitPart vid n (root, lv, cp) ip = Inr st"
    and rest: "foldE (visitPart vid n) ips st = Inr (root', lv', cp')"
    by (cases "visitPart vid n (root, lv, cp) ip") auto
  obtain r1 l1 c1 where st1: "st = (r1, l1, c1)" by (cases st)
  from visitPart_childless[OF st[unfolded st1] Cons(3)] Cons(1)[OF rest[unfolded st1]]
  show ?case by blast
qed

lemma visitVariable_childless:
  "visitVariable root v = Inr root' \<Longrightarrow> \<forall>x \<in> snd ` set root. childless x \<Longrightarrow>
   \<forall>x \<in> snd ` set root'. childless x"
  by (auto simp: visitVariable_def split: sum.splits prod.splits dest!: foldE_visitPart_childless)

lemma foldE_visitVariable_childless:
  "foldE visitVariable vars root = Inr root' \<Longrightarrow> \<forall>x \<in> snd ` set root. childless x \<Longrightarrow>
   \<forall>x \<in> snd ` set root'. childless x"
proof (induction vars arbitrary: root)
  case Nil
  then show ?case by simp
next
  case (Cons v vars)
  from Cons(2) obtain m where m: "visitVariable root v = Inr m"
    and rest: "foldE visitVariable vars m = Inr root'"
    by (cases "visitVariable root v") auto
  from Cons(1)[OF rest visitVariable_childless[OF m Cons(3)]] show ?case .
qed

lemma flattenNode_childless_id: "childless n \<Longrightarrow> flattenNode n = n"
  by (cases "children n") (auto simp: childless_def flattenNode.simps[of n] set_children_same)

lemma buildTree_never_nests:
  assumes "buildTree vars = Inr forest"
  shows "\<forall>n \<in> set forest. children n = None \<or> children n = Some []"
proof -
  from assms obtain root where r: "foldE visitVariable vars [] = Inr root"
    and f: "forest = map flattenNode (Map_values root)"
    by (cases "foldE visitVariable vars []") (auto simp: buildTree_def)
  from foldE_visitVariable_childless[OF r] have fl: "\<forall>x \<in> snd ` set root. childless x" by simp
  have "flattenNode n = n" if "n \<in> set (Map_values root)" for n
  proof -
    from that have "n \<in> snd ` set root" by (simp add: Map_values_def)
    with fl have "childless n" by blast
    then show ?thesis by (rule flattenNode_childless_id)
  qed
  then have "map flattenNode (Map_values root) = Map_values root"
    by (simp add: map_idI)
  with f fl show ?thesis by (auto simp: Map_values_def childless_def)
qed

text \<open>
  C1, on the code. \<^verbatim>\<open>buildTree\<close> of \<^verbatim>\<open>utils/treeBuilder.ts\<close> on the scenario's
  names returns the root group \<open>color\<close> with an empty array of children: the
  nodes below the first segment are stored in a map that was made from a
  \<^verbatim>\<open>children\<close> array, never in the array, and all three leaves are lost.
\<close>

theorem buildTree_scenario_loses_leaves:
  "buildTree scenarioVariables =
     Inr [TreeNode ''color'' ''color'' Group (Some []) None True 0 False False None]"
  by code_simp

text \<open>
  \<^verbatim>\<open>buildTree\<close> of \<^verbatim>\<open>code.js\<close> builds the forest of the scenario. It drops the
  leaf of a name that is a path prefix of an earlier name.
\<close>

lemma buildTree_js_scenario: "buildTree_js scenarioVariables = Inr scenarioForest"
  by code_simp

lemma buildTree_js_prefix_name:
  "buildTree_js [variableNamed ''v1'' ''a/b'', variableNamed ''v2'' ''a''] =
     Inr [TreeNode ''a'' ''a'' Group (Some
            [TreeNode ''a/b'' ''b'' Variable None (Some ''v1'') True 1 False False (Some ''a'')])
            None True 0 False False None]"
  by code_simp




end
